theory Spec2Isabelle
  imports Main "HOL-Library.Word"
begin

unbundle bit_operations_syntax

section \<open>Data model of \<open>queue.go\<close>\<close>

text \<open>
  The queue works on \<open>uint32\<close> throughout; all arithmetic below is on 32-bit words,
  so \<open>+\<close> and \<open>-\<close> wrap as Go's unsigned arithmetic does and \<open><\<close> is the unsigned
  comparison.
\<close>

type_synonym u32 = "32 word"

text \<open>The two sentinel errors \<open>ErrQueueIsFull\<close> and \<open>ErrQueueIsEmpty\<close>.\<close>

datatype error = ErrQueueIsFull | ErrQueueIsEmpty

text \<open>
  \<open>element[E]\<close>: the two sequence numbers of a slot and its payload (the padding
  carries no data). The Go field \<open>value\<close> is called \<open>elem_value\<close> here.
\<close>

record 'e element =
  getSeq :: u32
  putSeq :: u32
  elem_value :: 'e

text \<open>
  \<open>Queue[E]\<close>. The Go field \<open>mask\<close> is called \<open>mask_q\<close> here; \<open>elements\<close> is the
  slice of slots, a list whose length is the slice's length.
\<close>

record 'e Queue =
  capacity :: u32
  mask_q :: u32
  head :: u32
  tail :: u32
  elements :: "'e element list"

text \<open>
  How a call of the single-threaded program ends: it returns, it panics (a slice
  index out of range), or it never returns because a spin loop waits for a condition
  that no other goroutine will ever establish.
\<close>

datatype 'a outcome = Returns 'a | Panics | Spins

section \<open>Construction\<close>

text \<open>
  Lines 55--65 of \<open>New\<close>: the bit-spread round-up to a power of two on \<open>uint32\<close>,
  followed by the lower clamp.
\<close>

definition New_capacity :: "u32 \<Rightarrow> u32" where
  "New_capacity c =
     (let c1 = c - 1;
          c2 = c1 OR drop_bit 1 c1;
          c3 = c2 OR drop_bit 2 c2;
          c4 = c3 OR drop_bit 4 c3;
          c5 = c4 OR drop_bit 8 c4;
          c6 = c5 OR drop_bit 16 c5;
          c7 = c6 + 1
      in if c7 < 2 then 2 else c7)"

text \<open>
  Lines 67--79 of \<open>New\<close>: \<open>make\<close> zero-initialises the slots, the loop numbers them,
  and slot 0 is then given the sequence number \<open>capacity\<close>. \<open>head\<close> and \<open>tail\<close> start
  at the zero value. Index 0 exists because the capacity is at least 2.
\<close>

definition New :: "u32 \<Rightarrow> ('e::zero) Queue" where
  "New c =
     (let cap = New_capacity c;
          slots = map (\<lambda>i. \<lparr>getSeq = of_nat i, putSeq = of_nat i, elem_value = 0\<rparr>)
                      [0..<unat cap];
          slots = slots[0 := (slots ! 0)\<lparr>putSeq := cap\<rparr>];
          slots = slots[0 := (slots ! 0)\<lparr>getSeq := cap\<rparr>]
      in \<lparr>capacity = cap, mask_q = cap - 1, head = 0, tail = 0, elements = slots\<rparr>)"

section \<open>Observers\<close>

definition Cap :: "'e Queue \<Rightarrow> u32" where
  "Cap q = capacity q"

definition Len :: "'e Queue \<Rightarrow> u32" where
  "Len q = tail q - head q"

definition IsEmpty :: "'e Queue \<Rightarrow> bool" where
  "IsEmpty q = (head q = tail q)"

definition IsFull :: "'e Queue \<Rightarrow> bool" where
  "IsFull q = (tail q - head q = capacity q)"

definition usedSize :: "'e Queue \<Rightarrow> u32 \<Rightarrow> u32 \<Rightarrow> u32" where
  "usedSize q t h = t - h"

definition leftSize :: "'e Queue \<Rightarrow> u32 \<Rightarrow> u32 \<Rightarrow> u32" where
  "leftSize q t h = capacity q - usedSize q t h"

section \<open>Reservation\<close>

text \<open>
  \<open>atomic.CompareAndSwapUint32\<close> on a cell holding \<open>cur\<close>: the new content of the
  cell and whether the swap happened.
\<close>

definition CompareAndSwapUint32 :: "u32 \<Rightarrow> u32 \<Rightarrow> u32 \<Rightarrow> u32 \<times> bool" where
  "CompareAndSwapUint32 cur old new = (if cur = old then (new, True) else (cur, False))"

text \<open>
  \<open>acquirePut\<close> and \<open>acquireGet\<close>: the retry loop is kept as a recursion that is
  taken when the compare-and-swap fails; \<open>runtime.Gosched\<close> does nothing in a
  single-threaded run. The result is the updated queue together with the four
  values the Go function returns; \<open>None\<close> would mean that the loop never ends.
\<close>

partial_function (option) acquirePut ::
  "'e Queue \<Rightarrow> u32 \<Rightarrow> ('e Queue \<times> u32 \<times> u32 \<times> u32 \<times> error option) option" where
  "acquirePut q sz =
     (let h = head q;
          t = tail q;
          left = leftSize q t h
      in if left = 0 then Some (q, 0, 0, 0, Some ErrQueueIsFull)
         else let sz = (if sz > left then left else sz);
                  (t', swapped) = CompareAndSwapUint32 (tail q) t (t + sz)
              in if swapped then Some (q\<lparr>tail := t'\<rparr>, t + 1, sz, left - sz, None)
                 else acquirePut (q\<lparr>tail := t'\<rparr>) sz)"

partial_function (option) acquireGet ::
  "'e Queue \<Rightarrow> u32 \<Rightarrow> ('e Queue \<times> u32 \<times> u32 \<times> u32 \<times> error option) option" where
  "acquireGet q sz =
     (let h = head q;
          t = tail q;
          used = usedSize q t h
      in if used = 0 then Some (q, 0, 0, 0, Some ErrQueueIsEmpty)
         else let sz = (if sz > used then used else sz);
                  (h', swapped) = CompareAndSwapUint32 (head q) h (h + sz)
              in if swapped then Some (q\<lparr>head := h'\<rparr>, h + 1, sz, used - sz, None)
                 else acquireGet (q\<lparr>head := h'\<rparr>) sz)"

section \<open>Slot publication and consumption\<close>

text \<open>Sequencing of calls: a panic or a spin of the first call ends the whole run.\<close>

fun bind_outcome :: "'a outcome \<Rightarrow> ('a \<Rightarrow> 'b outcome) \<Rightarrow> 'b outcome" where
  "bind_outcome (Returns a) f = f a"
| "bind_outcome Panics f = Panics"
| "bind_outcome Spins f = Spins"

text \<open>A loop that ends gives its result; one that never ends is \<open>Spins\<close>.\<close>

fun of_loop :: "'a option \<Rightarrow> 'a outcome" where
  "of_loop (Some a) = Returns a"
| "of_loop None = Spins"

text \<open>
  The wait loops of \<open>put\<close> and \<open>get\<close>. Nothing changes the slot while a
  single-threaded caller waits, so the loop re-reads the same slot.
\<close>

partial_function (option) put_spin :: "'e element \<Rightarrow> u32 \<Rightarrow> unit option" where
  "put_spin elem position =
     (if \<not> (position = getSeq elem \<and> position = putSeq elem)
      then put_spin elem position else Some ())"

partial_function (option) get_spin :: "'e element \<Rightarrow> u32 \<Rightarrow> u32 \<Rightarrow> unit option" where
  "get_spin elem position cap =
     (if \<not> (position = getSeq elem \<and> position = putSeq elem - cap)
      then get_spin elem position cap else Some ())"

text \<open>
  \<open>put\<close>: index the slice (a panic when the index is not below its length), wait,
  store the value, add \<open>capacity\<close> to \<open>putSeq\<close>.
\<close>

definition put :: "'e Queue \<Rightarrow> u32 \<Rightarrow> 'e \<Rightarrow> 'e Queue outcome" where
  "put q position v =
     (let i = unat (position AND mask_q q)
      in if length (elements q) \<le> i then Panics
         else let elem = elements q ! i
              in bind_outcome (of_loop (put_spin elem position)) (\<lambda>_.
                   let elem = elem\<lparr>elem_value := v\<rparr>;
                       elem = elem\<lparr>putSeq := putSeq elem + capacity q\<rparr>
                   in Returns (q\<lparr>elements := (elements q)[i := elem]\<rparr>)))"

text \<open>
  \<open>get\<close>: index the slice, wait, read the value, overwrite it with the zero value
  of the element type, add \<open>capacity\<close> to \<open>getSeq\<close>.
\<close>

definition get :: "('e::zero) Queue \<Rightarrow> u32 \<Rightarrow> ('e Queue \<times> 'e) outcome" where
  "get q position =
     (let i = unat (position AND mask_q q)
      in if length (elements q) \<le> i then Panics
         else let elem = elements q ! i
              in bind_outcome (of_loop (get_spin elem position (capacity q))) (\<lambda>_.
                   let val = elem_value elem;
                       elem = elem\<lparr>elem_value := 0\<rparr>;
                       elem = elem\<lparr>getSeq := getSeq elem + capacity q\<rparr>
                   in Returns (q\<lparr>elements := (elements q)[i := elem]\<rparr>, val)))"

section \<open>Public operations\<close>

text \<open>
  Every operation returns the queue it leaves behind followed by the values of the Go
  function. An \<open>error\<close> result is \<open>None\<close> for \<open>nil\<close>. Where Go returns the zero value
  of \<open>E\<close> next to an error, so does the model.
\<close>

definition Put :: "'e Queue \<Rightarrow> 'e \<Rightarrow> ('e Queue \<times> u32 \<times> error option) outcome" where
  "Put q v =
     bind_outcome (of_loop (acquirePut q 1)) (\<lambda>(q, position, _, left, err).
       if err \<noteq> None then Returns (q, 0, err)
       else bind_outcome (put q position v) (\<lambda>q. Returns (q, left, None)))"

definition Get :: "('e::zero) Queue \<Rightarrow> ('e Queue \<times> 'e \<times> u32 \<times> error option) outcome" where
  "Get q =
     bind_outcome (of_loop (acquireGet q 1)) (\<lambda>(q, position, _, used, err).
       if err \<noteq> None then Returns (q, 0, 0, err)
       else bind_outcome (get q position) (\<lambda>(q, val). Returns (q, val, used, None)))"

text \<open>
  The loop of \<open>PutEnough\<close>, \<open>for i, j := position, 0; i < position+actualSize; ...\<close>.
  The bound \<open>upper\<close> is the \<open>uint32\<close> sum \<open>position + actualSize\<close> and the test is
  the unsigned comparison; \<open>j\<close> is a Go \<open>int\<close> and \<open>values[j]\<close> panics out of range.
\<close>

function PutEnough_loop ::
  "'e Queue \<Rightarrow> 'e list \<Rightarrow> u32 \<Rightarrow> u32 \<Rightarrow> nat \<Rightarrow> 'e Queue outcome" where
  "PutEnough_loop q vs upper i j =
     (if i < upper
      then if length vs \<le> j then Panics
           else bind_outcome (put q i (vs ! j)) (\<lambda>q. PutEnough_loop q vs upper (i + 1) (j + 1))
      else Returns q)"
  by pat_completeness auto
termination
proof (relation "measure (\<lambda>(q, vs, upper, i, j). unat upper - unat i)")
  show "wf (measure (\<lambda>(q, vs, upper, i, j). unat upper - unat i))"
    by simp
next
  fix q q' :: "'e Queue" and vs :: "'e list" and upper i :: u32 and j :: nat
  assume "i < upper"
  then have "unat upper - unat (i + 1) < unat upper - unat i"
    by unat_arith
  then show "((q', vs, upper, i + 1, j + 1), (q, vs, upper, i, j))
      \<in> measure (\<lambda>(q, vs, upper, i, j). unat upper - unat i)"
    by simp
qed

definition PutEnough :: "'e Queue \<Rightarrow> 'e list \<Rightarrow> ('e Queue \<times> u32 \<times> u32) outcome" where
  "PutEnough q vs =
     (let sz = (of_nat (length vs) :: u32)
      in if sz = 0 then Returns (q, 0, Cap q - Len q)
         else bind_outcome (of_loop (acquirePut q sz)) (\<lambda>(q, position, actualSize, left, err).
                if err \<noteq> None then Returns (q, 0, 0)
                else bind_outcome (PutEnough_loop q vs (position + actualSize) position 0)
                       (\<lambda>q. Returns (q, actualSize, left))))"

text \<open>
  \<open>GetEnough\<close>. Both \<open>[]E{}\<close> and \<open>nil\<close> are the empty sequence of values. \<open>res\<close>
  grows by \<open>append\<close>.
\<close>

function GetEnough_loop ::
  "('e::zero) Queue \<Rightarrow> 'e list \<Rightarrow> u32 \<Rightarrow> u32 \<Rightarrow> ('e Queue \<times> 'e list) outcome" where
  "GetEnough_loop q res upper i =
     (if i < upper
      then bind_outcome (get q i) (\<lambda>(q, val). GetEnough_loop q (res @ [val]) upper (i + 1))
      else Returns (q, res))"
  by pat_completeness auto
termination
proof (relation "measure (\<lambda>(q, res, upper, i). unat upper - unat i)")
  show "wf (measure (\<lambda>(q, res, upper, i). unat upper - unat i))"
    by simp
next
  fix q q' :: "'e Queue" and res res' :: "'e list" and upper i :: u32
  assume "i < upper"
  then have "unat upper - unat (i + 1) < unat upper - unat i"
    by unat_arith
  then show "((q', res', upper, i + 1), (q, res, upper, i))
      \<in> measure (\<lambda>(q, res, upper, i). unat upper - unat i)"
    by simp
qed

definition GetEnough ::
  "('e::zero) Queue \<Rightarrow> u32 \<Rightarrow> ('e Queue \<times> 'e list \<times> u32 \<times> u32) outcome" where
  "GetEnough q sz =
     (if sz = 0 then Returns (q, [], 0, Cap q - Len q)
      else bind_outcome (of_loop (acquireGet q sz)) (\<lambda>(q, position, actualSize, used, err).
             if err \<noteq> None then Returns (q, [], 0, 0)
             else bind_outcome (GetEnough_loop q [] (position + actualSize) position)
                    (\<lambda>(q, res). Returns (q, res, actualSize, used))))"

text \<open>
  \<open>MustPut\<close> and \<open>MustGet\<close> retry the reservation until it succeeds. On a full
  (empty) queue a single-threaded caller retries for ever: the loop has no result.
\<close>

partial_function (option) MustPut_loop :: "'e Queue \<Rightarrow> ('e Queue \<times> u32 \<times> u32) option" where
  "MustPut_loop q =
     Option.bind (acquirePut q 1) (\<lambda>(q, position, _, left, err).
       if err = None then Some (q, position, left) else MustPut_loop q)"

definition MustPut :: "'e Queue \<Rightarrow> 'e \<Rightarrow> ('e Queue \<times> u32) outcome" where
  "MustPut q v =
     bind_outcome (of_loop (MustPut_loop q)) (\<lambda>(q, position, left).
       bind_outcome (put q position v) (\<lambda>q. Returns (q, left)))"

partial_function (option) MustGet_loop :: "'e Queue \<Rightarrow> ('e Queue \<times> u32 \<times> u32) option" where
  "MustGet_loop q =
     Option.bind (acquireGet q 1) (\<lambda>(q, position, _, used, err).
       if err = None then Some (q, position, used) else MustGet_loop q)"

definition MustGet :: "('e::zero) Queue \<Rightarrow> ('e Queue \<times> 'e \<times> u32) outcome" where
  "MustGet q =
     bind_outcome (of_loop (MustGet_loop q)) (\<lambda>(q, position, used).
       bind_outcome (get q position) (\<lambda>(q, val). Returns (q, val, used)))"

section \<open>A single-threaded client\<close>

text \<open>
  A caller that issues one operation after the other. \<open>step\<close> performs one call and
  records what it returned; \<open>run\<close> performs a list of calls in order and stops at
  the first that panics or never returns.
\<close>

datatype 'e op =
  OpPut 'e | OpGet | OpPutEnough "'e list" | OpGetEnough u32 | OpMustPut 'e | OpMustGet

datatype 'e reply =
  PutReply u32 "error option"
| GetReply 'e u32 "error option"
| PutEnoughReply u32 u32
| GetEnoughReply "'e list" u32 u32
| MustPutReply u32
| MustGetReply 'e u32

fun step :: "('e::zero) op \<Rightarrow> 'e Queue \<Rightarrow> ('e Queue \<times> 'e reply) outcome" where
  "step (OpPut v) q = bind_outcome (Put q v) (\<lambda>(q, left, err). Returns (q, PutReply left err))"
| "step OpGet q = bind_outcome (Get q) (\<lambda>(q, val, used, err). Returns (q, GetReply val used err))"
| "step (OpPutEnough vs) q =
     bind_outcome (PutEnough q vs) (\<lambda>(q, n, left). Returns (q, PutEnoughReply n left))"
| "step (OpGetEnough sz) q =
     bind_outcome (GetEnough q sz) (\<lambda>(q, res, n, used). Returns (q, GetEnoughReply res n used))"
| "step (OpMustPut v) q = bind_outcome (MustPut q v) (\<lambda>(q, left). Returns (q, MustPutReply left))"
| "step OpMustGet q = bind_outcome (MustGet q) (\<lambda>(q, val, used). Returns (q, MustGetReply val used))"

fun run :: "('e::zero) op list \<Rightarrow> 'e Queue \<Rightarrow> ('e Queue \<times> 'e reply list) outcome" where
  "run [] q = Returns (q, [])"
| "run (c # cs) q =
     bind_outcome (step c q) (\<lambda>(q, r).
       bind_outcome (run cs q) (\<lambda>(q, rs). Returns (q, r # rs)))"

text \<open>
  The values a call handed over to the queue according to its reply (for \<open>PutEnough\<close>
  the first \<open>n\<close> arguments, \<open>n\<close> being the count it reports), and the values a call
  returned to its caller.
\<close>

fun supplied :: "'e op \<Rightarrow> 'e reply \<Rightarrow> 'e list" where
  "supplied (OpPut v) (PutReply left None) = [v]"
| "supplied (OpPutEnough vs) (PutEnoughReply n left) = take (unat n) vs"
| "supplied (OpMustPut v) (MustPutReply left) = [v]"
| "supplied c r = []"

fun received :: "'e reply \<Rightarrow> 'e list" where
  "received (GetReply val used None) = [val]"
| "received (GetEnoughReply res n used) = res"
| "received (MustGetReply val used) = [val]"
| "received r = []"

text \<open>The number of elements a call reports as put, and as got.\<close>

fun put_count :: "'e reply \<Rightarrow> nat" where
  "put_count (PutReply left None) = 1"
| "put_count (PutEnoughReply n left) = unat n"
| "put_count (MustPutReply left) = 1"
| "put_count r = 0"

fun get_count :: "'e reply \<Rightarrow> nat" where
  "get_count (GetReply val used None) = 1"
| "get_count (GetEnoughReply res n used) = unat n"
| "get_count (MustGetReply val used) = 1"
| "get_count r = 0"

text \<open>
  All values handed over, and all values returned, in a run of calls \<open>cs\<close> with the
  replies \<open>rs\<close>, in the order of the calls.
\<close>

definition supplied_by :: "'e op list \<Rightarrow> 'e reply list \<Rightarrow> 'e list" where
  "supplied_by cs rs = concat (map2 supplied cs rs)"

definition received_by :: "'e reply list \<Rightarrow> 'e list" where
  "received_by rs = concat (map received rs)"

section \<open>States used in the proofs\<close>

text \<open>
  The handshake state of the slots: in every slot the unsigned difference
  \<open>putSeq - getSeq\<close> is 0 (drained, ready to be written) or \<open>capacity\<close> (written, ready
  to be read).
\<close>

definition slots_ok :: "'e Queue \<Rightarrow> bool" where
  "slots_ok q =
     list_all (\<lambda>e. putSeq e - getSeq e = 0 \<or> putSeq e - getSeq e = capacity q) (elements q)"

text \<open>
  The queue of capacity 2 that is empty after \<open>w\<close> elements went through it: both
  counters are \<open>w\<close>, and the two slots wait for the positions \<open>w + 1\<close> and \<open>w + 2\<close>,
  each at the index given by its lowest bit.
\<close>

definition drained2 :: "u32 \<Rightarrow> ('e::zero) Queue" where
  "drained2 w =
     \<lparr>capacity = 2, mask_q = 1, head = w, tail = w,
      elements =
        (if w AND 1 = 0
         then [\<lparr>getSeq = w + 2, putSeq = w + 2, elem_value = 0\<rparr>,
               \<lparr>getSeq = w + 1, putSeq = w + 1, elem_value = 0\<rparr>]
         else [\<lparr>getSeq = w + 1, putSeq = w + 1, elem_value = 0\<rparr>,
               \<lparr>getSeq = w + 2, putSeq = w + 2, elem_value = 0\<rparr>])\<rparr>"

text \<open>
  The constants of a well-formed ring: the capacity is a power of two between 2 and
  \<open>2^31\<close>, the mask is \<open>capacity - 1\<close> and there are \<open>capacity\<close> slots.
\<close>

definition ring_ok :: "'e Queue \<Rightarrow> bool" where
  "ring_ok q = ((\<exists>k. 1 \<le> k \<and> k \<le> 31 \<and> capacity q = 2 ^ k) \<and>
             mask_q q = capacity q - 1 \<and> length (elements q) = unat (capacity q))"

text \<open>The slot that position \<open>p\<close> selects, \<open>elements[p & mask]\<close>.\<close>

definition slot_at :: "'e Queue \<Rightarrow> u32 \<Rightarrow> 'e element" where
  "slot_at q p = elements q ! unat (p AND mask_q q)"

text \<open>
  The slots as the handshake leaves them when the positions \<open>h + 1, ..., h + L\<close> are
  published and not yet consumed: each of the \<open>capacity\<close> positions after \<open>h\<close> finds
  its own number in \<open>getSeq\<close> of its slot, and in \<open>putSeq\<close> that number plus
  \<open>capacity\<close> when it is published, that number when the slot still waits for it.
  \<open>stored\<close> lists the values of the published positions, oldest first.
\<close>

definition slots_at :: "'e Queue \<Rightarrow> u32 \<Rightarrow> nat \<Rightarrow> bool" where
  "slots_at q h L =
     (\<forall>j < unat (capacity q).
        getSeq (slot_at q (h + 1 + of_nat j)) = h + 1 + of_nat j \<and>
        putSeq (slot_at q (h + 1 + of_nat j)) =
          (if j < L then h + 1 + of_nat j + capacity q else h + 1 + of_nat j))"

definition stored :: "'e Queue \<Rightarrow> u32 \<Rightarrow> nat \<Rightarrow> 'e list" where
  "stored q h L = map (\<lambda>j. elem_value (slot_at q (h + 1 + of_nat j))) [0..<L]"

text \<open>
  The state between operations: the ring is well formed, \<open>tail - head\<close> is at most
  \<open>capacity\<close>, and the published positions are those from \<open>head + 1\<close> to \<open>tail\<close>.
  Their values are the contents of the queue.
\<close>

definition queue_inv :: "'e Queue \<Rightarrow> bool" where
  "queue_inv q = (ring_ok q \<and> tail q - head q \<le> capacity q \<and>
            slots_at q (head q) (unat (tail q - head q)))"

definition contents :: "'e Queue \<Rightarrow> 'e list" where
  "contents q = stored q (head q) (unat (tail q - head q))"

text \<open>The loops are run by their defining equations.\<close>

declare acquirePut.simps [code] acquireGet.simps [code] put_spin.simps [code]
  get_spin.simps [code] MustPut_loop.simps [code] MustGet_loop.simps [code]

section \<open>The loops in closed form\<close>

text \<open>
  A single-threaded caller always wins the compare-and-swap, so a reservation takes
  one round of the loop. A wait loop ends at once or never.
\<close>

lemma acquirePut_eq:
  "acquirePut q sz =
     Some (if capacity q - (tail q - head q) = 0 then (q, 0, 0, 0, Some ErrQueueIsFull)
           else let n = (if sz > capacity q - (tail q - head q)
                         then capacity q - (tail q - head q) else sz)
                in (q\<lparr>tail := tail q + n\<rparr>, tail q + 1, n,
                    capacity q - (tail q - head q) - n, None))"
  by (subst acquirePut.simps)
     (simp add: leftSize_def usedSize_def CompareAndSwapUint32_def Let_def)

lemma acquireGet_eq:
  "acquireGet q sz =
     Some (if tail q - head q = 0 then (q, 0, 0, 0, Some ErrQueueIsEmpty)
           else let n = (if sz > tail q - head q then tail q - head q else sz)
                in (q\<lparr>head := head q + n\<rparr>, head q + 1, n, tail q - head q - n, None))"
  by (subst acquireGet.simps)
     (simp add: usedSize_def CompareAndSwapUint32_def Let_def)

lemma put_spin_eq:
  "put_spin elem position =
     (if position = getSeq elem \<and> position = putSeq elem then Some () else None)"
proof (cases "position = getSeq elem \<and> position = putSeq elem")
  case True
  then show ?thesis by (subst put_spin.simps) auto
next
  case False
  have "position = getSeq elem \<and> position = putSeq elem" if "put_spin elem position = Some y" for y
    by (rule put_spin.raw_induct[where P="\<lambda>elem position y. position = getSeq elem \<and> position = putSeq elem", OF _ that])
       (auto split: if_splits)
  with False show ?thesis by (cases "put_spin elem position") auto
qed

lemma get_spin_eq:
  "get_spin elem position cap =
     (if position = getSeq elem \<and> position = putSeq elem - cap then Some () else None)"
proof (cases "position = getSeq elem \<and> position = putSeq elem - cap")
  case True
  then show ?thesis by (subst get_spin.simps) auto
next
  case False
  have "position = getSeq elem \<and> position = putSeq elem - cap" if "get_spin elem position cap = Some y" for y
    by (rule get_spin.raw_induct[where P="\<lambda>elem position cap y. position = getSeq elem \<and> position = putSeq elem - cap", OF _ that])
       (auto split: if_splits)
  with False show ?thesis by (cases "get_spin elem position cap") auto
qed

lemma MustPut_loop_eq:
  "MustPut_loop q =
     (if capacity q - (tail q - head q) = 0 then None
      else Some (q\<lparr>tail := tail q + 1\<rparr>, tail q + 1, capacity q - (tail q - head q) - 1))"
proof (cases "capacity q - (tail q - head q) = 0")
  case False
  then have "\<not> 1 > capacity q - (tail q - head q)"
    by (simp add: word_less_1)
  with False show ?thesis
    by (subst MustPut_loop.simps) (simp add: acquirePut_eq Let_def)
next
  case True
  have "capacity q - (tail q - head q) \<noteq> 0" if "MustPut_loop q = Some y" for y
    by (rule MustPut_loop.raw_induct[where P="\<lambda>q y. capacity q - (tail q - head q) \<noteq> 0", OF _ that])
       (auto simp: acquirePut_eq Let_def split: if_splits)
  with True show ?thesis by (cases "MustPut_loop q") auto
qed

lemma MustGet_loop_eq:
  "MustGet_loop q =
     (if tail q - head q = 0 then None
      else Some (q\<lparr>head := head q + 1\<rparr>, head q + 1, tail q - head q - 1))"
proof (cases "tail q - head q = 0")
  case False
  then have "\<not> 1 > tail q - head q"
    by (simp add: word_less_1)
  with False show ?thesis
    by (subst MustGet_loop.simps) (simp add: acquireGet_eq Let_def)
next
  case True
  have "tail q - head q \<noteq> 0" if "MustGet_loop q = Some y" for y
    by (rule MustGet_loop.raw_induct[where P="\<lambda>q y. tail q - head q \<noteq> 0", OF _ that])
       (auto simp: acquireGet_eq Let_def split: if_splits)
  with True show ?thesis by (cases "MustGet_loop q") auto
qed

lemma put_eq:
  "put q position v =
     (let i = unat (position AND mask_q q)
      in if length (elements q) \<le> i then Panics
         else if position = getSeq (elements q ! i) \<and> position = putSeq (elements q ! i)
         then Returns (q\<lparr>elements := (elements q)
                [i := (elements q ! i)\<lparr>elem_value := v, putSeq := position + capacity q\<rparr>]\<rparr>)
         else Spins)"
  by (simp add: put_def put_spin_eq Let_def)

lemma get_eq:
  "get q position =
     (let i = unat (position AND mask_q q)
      in if length (elements q) \<le> i then Panics
         else if position = getSeq (elements q ! i)
               \<and> position = putSeq (elements q ! i) - capacity q
         then Returns (q\<lparr>elements := (elements q)
                [i := (elements q ! i)\<lparr>elem_value := 0, getSeq := position + capacity q\<rparr>]\<rparr>,
                elem_value (elements q ! i))
         else Spins)"
  by (simp add: get_def get_spin_eq Let_def)

section \<open>Construction: the capacity\<close>

lemma Cap_New: "Cap (New c) = New_capacity c"
  by (simp add: New_def Cap_def Let_def)

text \<open>
  C6. The claim: \<open>New(2^31)\<close> has capacity \<open>2^31\<close>, and \<open>New(2^31 + 1)\<close> has capacity
  \<open>2^31\<close> as well. The code at these two inputs: the first capacity is \<open>2^31\<close>, but
  for \<open>2^31 + 1\<close> the bit-spread gives \<open>2^32 - 1\<close>, the increment wraps to 0 and the
  lower clamp makes the capacity 2.
\<close>

theorem New_upper_boundary:
  "Cap (New 2147483648 :: int Queue) = 2147483648 \<and> Cap (New 2147483649 :: int Queue) = 2"
  by (simp add: Cap_New New_capacity_def Let_def)

section \<open>Operations that reserve nothing\<close>

text \<open>
  C8. For every queue state, \<open>GetEnough(0)\<close> returns the empty sequence, the count 0
  and \<open>Cap() - Len()\<close>, and leaves the queue (head, tail and all slots) as it was.
\<close>

theorem GetEnough_zero: "GetEnough q 0 = Returns (q, [], 0, Cap q - Len q)"
  by (simp add: GetEnough_def)

text \<open>
  C4. On a queue with \<open>Len() = Cap()\<close>, \<open>Put\<close> returns \<open>ErrQueueIsFull\<close> and the queue
  is unchanged; on a queue with \<open>Len() = 0\<close>, \<open>Get\<close> returns \<open>ErrQueueIsEmpty\<close> and the
  queue is unchanged. Whenever \<open>Put\<close> returns an error it is \<open>ErrQueueIsFull\<close>, the
  queue was full and stays as it was; whenever \<open>Get\<close> returns an error it is
  \<open>ErrQueueIsEmpty\<close>, the queue was empty and stays as it was. The other four
  operations have no error result.
\<close>

theorem try_variants_error_atomic:
  "(Len q = Cap q \<longrightarrow> Put q v = Returns (q, 0, Some ErrQueueIsFull)) \<and>
   (Len q = 0 \<longrightarrow> Get q = Returns (q, 0, 0, Some ErrQueueIsEmpty)) \<and>
   (Put q v = Returns (q', left, Some e) \<longrightarrow>
      e = ErrQueueIsFull \<and> Len q = Cap q \<and> q' = q \<and> left = 0) \<and>
   (Get q = Returns (q'', val, used, Some e') \<longrightarrow>
      e' = ErrQueueIsEmpty \<and> Len q = 0 \<and> q'' = q \<and> val = 0 \<and> used = 0)"
  by (auto simp: Put_def Get_def acquirePut_eq acquireGet_eq Len_def Cap_def Let_def put_eq get_eq
           split: if_splits)

theorem try_variants_error_atomic_witness:
  "Len \<lparr>capacity = 2, mask_q = 1, head = 0, tail = 2,
        elements = [\<lparr>getSeq = 2, putSeq = 4, elem_value = 8\<rparr>,
                    \<lparr>getSeq = 1, putSeq = 3, elem_value = 7 :: int\<rparr>]\<rparr>
     = Cap \<lparr>capacity = 2, mask_q = 1, head = 0, tail = 2,
        elements = [\<lparr>getSeq = 2, putSeq = 4, elem_value = 8\<rparr>,
                    \<lparr>getSeq = 1, putSeq = 3, elem_value = 7 :: int\<rparr>]\<rparr> \<and>
   Put \<lparr>capacity = 2, mask_q = 1, head = 0, tail = 2,
        elements = [\<lparr>getSeq = 2, putSeq = 4, elem_value = 8\<rparr>,
                    \<lparr>getSeq = 1, putSeq = 3, elem_value = 7 :: int\<rparr>]\<rparr> 9
     = Returns (\<lparr>capacity = 2, mask_q = 1, head = 0, tail = 2,
        elements = [\<lparr>getSeq = 2, putSeq = 4, elem_value = 8\<rparr>,
                    \<lparr>getSeq = 1, putSeq = 3, elem_value = 7 :: int\<rparr>]\<rparr>,
        0, Some ErrQueueIsFull) \<and>
   Len (New 2 :: int Queue) = 0 \<and>
   Get (New 2 :: int Queue) = Returns (New 2, 0, 0, Some ErrQueueIsEmpty)"
proof -
  let ?full = "\<lparr>capacity = 2, mask_q = 1, head = 0, tail = 2,
        elements = [\<lparr>getSeq = 2, putSeq = 4, elem_value = 8\<rparr>,
                    \<lparr>getSeq = 1, putSeq = 3, elem_value = 7 :: int\<rparr>]\<rparr>"
  have full: "Len ?full = Cap ?full"
    by (simp add: Len_def Cap_def)
  have empty: "Len (New 2 :: int Queue) = 0"
    by (simp add: Len_def New_def Let_def)
  from full have "Put ?full 9 = Returns (?full, 0, Some ErrQueueIsFull)"
    using try_variants_error_atomic [of ?full 9] by blast
  moreover from empty have "Get (New 2 :: int Queue) = Returns (New 2, 0, 0, Some ErrQueueIsEmpty)"
    using try_variants_error_atomic [of "New 2 :: int Queue"] by blast
  ultimately show ?thesis
    using full empty by blast
qed

section \<open>The must variants on a queue of capacity 8\<close>

text \<open>
  C9. On a fresh queue of capacity 8, \<open>MustPut(i)\<close> for \<open>i = 0, ..., 7\<close> followed by
  eight calls of \<open>MustGet()\<close>: every call returns, the puts report 7, 6, ..., 0 free
  slots, and the \<open>i\<close>-th get returns the value \<open>i\<close> with \<open>7 - i\<close> elements remaining.
\<close>

theorem must_round_trip:
  "Cap (New 8 :: int Queue) = 8 \<and>
   (\<exists>q. run (map OpMustPut [0, 1, 2, 3, 4, 5, 6, 7] @ replicate 8 OpMustGet) (New 8 :: int Queue) =
     Returns (q,
       [MustPutReply 7, MustPutReply 6, MustPutReply 5, MustPutReply 4,
        MustPutReply 3, MustPutReply 2, MustPutReply 1, MustPutReply 0,
        MustGetReply 0 7, MustGetReply 1 6, MustGetReply 2 5, MustGetReply 3 4,
        MustGetReply 4 3, MustGetReply 5 2, MustGetReply 6 1, MustGetReply 7 0]))"
proof
  show "Cap (New 8 :: int Queue) = 8"
    by (simp add: Cap_New New_capacity_def Let_def)
  have "run (map OpMustPut [0, 1, 2, 3, 4, 5, 6, 7] @ replicate 8 OpMustGet) (New 8 :: int Queue) =
     Returns (\<lparr>capacity = 8, mask_q = 7, head = 8, tail = 8,
         elements =
           [\<lparr>getSeq = 16, putSeq = 16, elem_value = 0\<rparr>,
            \<lparr>getSeq = 9, putSeq = 9, elem_value = 0\<rparr>,
            \<lparr>getSeq = 10, putSeq = 10, elem_value = 0\<rparr>,
            \<lparr>getSeq = 11, putSeq = 11, elem_value = 0\<rparr>,
            \<lparr>getSeq = 12, putSeq = 12, elem_value = 0\<rparr>,
            \<lparr>getSeq = 13, putSeq = 13, elem_value = 0\<rparr>,
            \<lparr>getSeq = 14, putSeq = 14, elem_value = 0\<rparr>,
            \<lparr>getSeq = 15, putSeq = 15, elem_value = 0\<rparr>]\<rparr>,
       [MustPutReply 7, MustPutReply 6, MustPutReply 5, MustPutReply 4,
        MustPutReply 3, MustPutReply 2, MustPutReply 1, MustPutReply 0,
        MustGetReply 0 7, MustGetReply 1 6, MustGetReply 2 5, MustGetReply 3 4,
        MustGetReply 4 3, MustGetReply 5 2, MustGetReply 6 1, MustGetReply 7 0])"
    by code_simp
  then show "\<exists>q. run (map OpMustPut [0, 1, 2, 3, 4, 5, 6, 7] @ replicate 8 OpMustGet)
      (New 8 :: int Queue) =
     Returns (q,
       [MustPutReply 7, MustPutReply 6, MustPutReply 5, MustPutReply 4,
        MustPutReply 3, MustPutReply 2, MustPutReply 1, MustPutReply 0,
        MustGetReply 0 7, MustGetReply 1 6, MustGetReply 2 5, MustGetReply 3 4,
        MustGetReply 4 3, MustGetReply 5 2, MustGetReply 6 1, MustGetReply 7 0])"
    by blast
qed

section \<open>The length of the queue\<close>

text \<open>
  The slot phase of an operation touches the slots only; head, tail, capacity and mask
  are those the reservation left.
\<close>

lemma bind_outcome_Returns:
  "bind_outcome m f = Returns r \<longleftrightarrow> (\<exists>a. m = Returns a \<and> f a = Returns r)"
  by (cases m) auto

declare PutEnough_loop.simps [simp del] GetEnough_loop.simps [simp del]

lemma put_frame:
  "put q p v = Returns q' \<Longrightarrow>
     head q' = head q \<and> tail q' = tail q \<and> capacity q' = capacity q \<and> mask_q q' = mask_q q"
  by (auto simp: put_eq Let_def split: if_splits)

lemma get_frame:
  "get q p = Returns (q', v) \<Longrightarrow>
     head q' = head q \<and> tail q' = tail q \<and> capacity q' = capacity q \<and> mask_q q' = mask_q q"
  by (auto simp: get_eq Let_def split: if_splits)

lemma PutEnough_loop_frame:
  "PutEnough_loop q vs upper i j = Returns q' \<Longrightarrow>
     head q' = head q \<and> tail q' = tail q \<and> capacity q' = capacity q \<and> mask_q q' = mask_q q"
proof (induction q vs upper i j rule: PutEnough_loop.induct)
  case (1 q vs upper i j)
  show ?case
  proof (cases "i < upper")
    case True
    with "1.prems" obtain q1 where *: "\<not> length vs \<le> j" "put q i (vs ! j) = Returns q1"
        "PutEnough_loop q1 vs upper (i + 1) (j + 1) = Returns q'"
      by (subst (asm) PutEnough_loop.simps) (auto simp: bind_outcome_Returns split: if_splits)
    from "1.IH" [OF True *(1) *(3)] put_frame [OF *(2)] show ?thesis by simp
  next
    case False
    with "1.prems" show ?thesis
      by (subst (asm) PutEnough_loop.simps) simp
  qed
qed

lemma GetEnough_loop_frame:
  "GetEnough_loop q res upper i = Returns (q', res') \<Longrightarrow>
     head q' = head q \<and> tail q' = tail q \<and> capacity q' = capacity q \<and> mask_q q' = mask_q q"
proof (induction q res upper i rule: GetEnough_loop.induct)
  case (1 q res upper i)
  show ?case
  proof (cases "i < upper")
    case True
    with "1.prems" obtain q1 v where *: "get q i = Returns (q1, v)"
        "GetEnough_loop q1 (res @ [v]) upper (i + 1) = Returns (q', res')"
      by (subst (asm) GetEnough_loop.simps) (auto simp: bind_outcome_Returns split: if_splits)
    from "1.IH" [OF True *(2)] get_frame [OF *(1)] show ?thesis by simp
  next
    case False
    with "1.prems" show ?thesis
      by (subst (asm) GetEnough_loop.simps) simp
  qed
qed

lemma grow_Len:
  fixes L C n :: u32
  shows "L \<le> C \<Longrightarrow> n \<le> C - L \<Longrightarrow> L + n \<le> C \<and> unat (L + n) = unat L + unat n"
  by unat_arith

lemma shrink_Len:
  fixes L C n :: u32
  shows "L \<le> C \<Longrightarrow> n \<le> L \<Longrightarrow> L - n \<le> C \<and> unat (L - n) + unat n = unat L"
  by unat_arith

lemma one_le_nonzero: "(n::u32) \<noteq> 0 \<Longrightarrow> \<not> n < 1 \<and> 1 \<le> n"
  by unat_arith

lemma Len_after_put:
  assumes "head q' = head q" "tail q' = tail q + n" "capacity q' = capacity q"
    and "Len q \<le> Cap q" "n \<le> capacity q - (tail q - head q)"
  shows "Cap q' = Cap q \<and> Len q' \<le> Cap q' \<and> unat (Len q') = unat (Len q) + unat n"
proof -
  have eq: "tail q + n - head q = (tail q - head q) + n" by simp
  from assms(4,5) grow_Len [of "tail q - head q" "capacity q" n] show ?thesis
    unfolding Len_def Cap_def assms(1-3) eq by simp
qed

lemma Len_after_get:
  assumes "head q' = head q + n" "tail q' = tail q" "capacity q' = capacity q"
    and "Len q \<le> Cap q" "n \<le> tail q - head q"
  shows "Cap q' = Cap q \<and> Len q' \<le> Cap q' \<and> unat (Len q') + unat n = unat (Len q)"
proof -
  have eq: "tail q - (head q + n) = (tail q - head q) - n" by simp
  from assms(4,5) shrink_Len [of "tail q - head q" "capacity q" n] show ?thesis
    unfolding Len_def Cap_def assms(1-3) eq by simp
qed

lemma Put_Len:
  assumes "Put q v = Returns (q', left, err)" and "Len q \<le> Cap q"
  shows "Cap q' = Cap q \<and> Len q' \<le> Cap q' \<and>
         unat (Len q') = unat (Len q) + put_count (PutReply left err)"
proof (cases "capacity q - (tail q - head q) = 0")
  case True
  with assms show ?thesis
    by (auto simp: Put_def acquirePut_eq)
next
  case False
  with assms obtain q1 where "put (q\<lparr>tail := tail q + 1\<rparr>) (tail q + 1) v = Returns q1"
      "q' = q1" "err = None"
    by (auto simp: Put_def acquirePut_eq Let_def one_le_nonzero bind_outcome_Returns)
  with put_frame [OF this(1)] Len_after_put [of q' q 1] False assms(2) show ?thesis
    by (auto simp: one_le_nonzero)
qed

lemma Get_Len:
  assumes "Get q = Returns (q', val, used, err)" and "Len q \<le> Cap q"
  shows "Cap q' = Cap q \<and> Len q' \<le> Cap q' \<and>
         unat (Len q') + get_count (GetReply val used err) = unat (Len q)"
proof (cases "tail q - head q = 0")
  case True
  with assms show ?thesis
    by (auto simp: Get_def acquireGet_eq)
next
  case False
  with assms obtain q1 where "get (q\<lparr>head := head q + 1\<rparr>) (head q + 1) = Returns (q1, val)"
      "q' = q1" "err = None"
    by (auto simp: Get_def acquireGet_eq Let_def one_le_nonzero bind_outcome_Returns)
  with get_frame [OF this(1)] Len_after_get [of q' q 1] False assms(2) show ?thesis
    by (auto simp: one_le_nonzero)
qed

lemma MustPut_Len:
  assumes "MustPut q v = Returns (q', left)" and "Len q \<le> Cap q"
  shows "Cap q' = Cap q \<and> Len q' \<le> Cap q' \<and> unat (Len q') = unat (Len q) + 1"
proof -
  from assms obtain q1 where *: "capacity q - (tail q - head q) \<noteq> 0"
      "put (q\<lparr>tail := tail q + 1\<rparr>) (tail q + 1) v = Returns q1" "q' = q1"
    by (auto simp: MustPut_def MustPut_loop_eq bind_outcome_Returns split: if_splits)
  with put_frame [OF *(2)] Len_after_put [of q' q 1] assms(2) show ?thesis
    by (auto simp: one_le_nonzero)
qed

lemma MustGet_Len:
  assumes "MustGet q = Returns (q', val, used)" and "Len q \<le> Cap q"
  shows "Cap q' = Cap q \<and> Len q' \<le> Cap q' \<and> unat (Len q') + 1 = unat (Len q)"
proof -
  from assms obtain q1 where *: "tail q - head q \<noteq> 0"
      "get (q\<lparr>head := head q + 1\<rparr>) (head q + 1) = Returns (q1, val)" "q' = q1"
    by (auto simp: MustGet_def MustGet_loop_eq bind_outcome_Returns split: if_splits)
  with get_frame [OF *(2)] Len_after_get [of q' q 1] assms(2) show ?thesis
    by (auto simp: one_le_nonzero)
qed

lemma PutEnough_eq:
  "PutEnough q vs =
     (if (of_nat (length vs) :: u32) = 0 then Returns (q, 0, Cap q - Len q)
      else if capacity q - (tail q - head q) = 0 then Returns (q, 0, 0)
      else let m = (if (of_nat (length vs) :: u32) > capacity q - (tail q - head q)
                    then capacity q - (tail q - head q) else of_nat (length vs))
           in bind_outcome
                (PutEnough_loop (q\<lparr>tail := tail q + m\<rparr>) vs (tail q + 1 + m) (tail q + 1) 0)
                (\<lambda>q'. Returns (q', m, capacity q - (tail q - head q) - m)))"
  by (simp add: PutEnough_def acquirePut_eq Let_def)

lemma GetEnough_eq:
  "GetEnough q sz =
     (if sz = 0 then Returns (q, [], 0, Cap q - Len q)
      else if tail q - head q = 0 then Returns (q, [], 0, 0)
      else let m = (if sz > tail q - head q then tail q - head q else sz)
           in bind_outcome
                (GetEnough_loop (q\<lparr>head := head q + m\<rparr>) [] (head q + 1 + m) (head q + 1))
                (\<lambda>(q', res). Returns (q', res, m, tail q - head q - m)))"
  by (simp add: GetEnough_def acquireGet_eq Let_def)

lemma PutEnough_Len:
  assumes "PutEnough q vs = Returns (q', n, left)" and "Len q \<le> Cap q"
  shows "Cap q' = Cap q \<and> Len q' \<le> Cap q' \<and> unat (Len q') = unat (Len q) + unat n"
proof -
  define m where "m = (if (of_nat (length vs) :: u32) > capacity q - (tail q - head q)
     then capacity q - (tail q - head q) else of_nat (length vs))"
  consider (zero) "(of_nat (length vs) :: u32) = 0"
    | (full) "(of_nat (length vs) :: u32) \<noteq> 0" "capacity q - (tail q - head q) = 0"
    | (room) "(of_nat (length vs) :: u32) \<noteq> 0" "capacity q - (tail q - head q) \<noteq> 0"
    by blast
  then show ?thesis
  proof cases
    case zero
    with assms(1) have "q' = q \<and> n = 0"
      by (simp add: PutEnough_eq)
    with assms(2) show ?thesis by simp
  next
    case full
    from assms(1) have "q' = q \<and> n = 0"
      unfolding PutEnough_eq if_not_P [OF full(1)] if_P [OF full(2)] by simp
    with assms(2) show ?thesis by simp
  next
    case room
    from assms(1) have "\<exists>q1. PutEnough_loop (q\<lparr>tail := tail q + m\<rparr>) vs (tail q + 1 + m)
        (tail q + 1) 0 = Returns q1 \<and> q' = q1 \<and> n = m"
      unfolding PutEnough_eq if_not_P [OF room(1)] if_not_P [OF room(2)] Let_def m_def [symmetric]
      by (auto simp: bind_outcome_Returns)
    then have loop: "PutEnough_loop (q\<lparr>tail := tail q + m\<rparr>) vs (tail q + 1 + m)
        (tail q + 1) 0 = Returns q'" and n: "n = m"
      by auto
    have m: "m \<le> capacity q - (tail q - head q)"
      by (simp add: m_def not_less)
    from PutEnough_loop_frame [OF loop]
    have "head q' = head q" "tail q' = tail q + m" "capacity q' = capacity q"
      by simp_all
    from Len_after_put [OF this assms(2) m] show ?thesis
      unfolding n by blast
  qed
qed

lemma GetEnough_Len:
  assumes "GetEnough q sz = Returns (q', res, n, used)" and "Len q \<le> Cap q"
  shows "Cap q' = Cap q \<and> Len q' \<le> Cap q' \<and> unat (Len q') + unat n = unat (Len q)"
proof -
  define m where "m = (if sz > tail q - head q then tail q - head q else sz)"
  consider (zero) "sz = 0"
    | (empty) "sz \<noteq> 0" "tail q - head q = 0"
    | (some) "sz \<noteq> 0" "tail q - head q \<noteq> 0"
    by blast
  then show ?thesis
  proof cases
    case zero
    with assms(1) have "q' = q \<and> n = 0"
      by (simp add: GetEnough_eq)
    with assms(2) show ?thesis by simp
  next
    case empty
    from assms(1) have "q' = q \<and> n = 0"
      unfolding GetEnough_eq if_not_P [OF empty(1)] if_P [OF empty(2)] by simp
    with assms(2) show ?thesis by simp
  next
    case some
    from assms(1) have "\<exists>q1. GetEnough_loop (q\<lparr>head := head q + m\<rparr>) [] (head q + 1 + m)
        (head q + 1) = Returns (q1, res) \<and> q' = q1 \<and> n = m"
      unfolding GetEnough_eq if_not_P [OF some(1)] if_not_P [OF some(2)] Let_def m_def [symmetric]
      by (auto simp: bind_outcome_Returns)
    then have loop: "GetEnough_loop (q\<lparr>head := head q + m\<rparr>) [] (head q + 1 + m)
        (head q + 1) = Returns (q', res)" and n: "n = m"
      by auto
    have m: "m \<le> tail q - head q"
      by (simp add: m_def not_less)
    from GetEnough_loop_frame [OF loop]
    have "head q' = head q + m" "tail q' = tail q" "capacity q' = capacity q"
      by simp_all
    from Len_after_get [OF this assms(2) m] show ?thesis
      unfolding n by blast
  qed
qed

lemma step_Len:
  assumes "step c q = Returns (q', r)" and "Len q \<le> Cap q"
  shows "Cap q' = Cap q \<and> Len q' \<le> Cap q' \<and>
         unat (Len q') + get_count r = unat (Len q) + put_count r"
proof (cases c)
  case (OpPut v)
  with assms Put_Len [of q v q'] show ?thesis
    by (auto simp: bind_outcome_Returns)
next
  case OpGet
  with assms Get_Len [of q q'] show ?thesis
    by (auto simp: bind_outcome_Returns)
next
  case (OpPutEnough vs)
  with assms PutEnough_Len [of q vs q'] show ?thesis
    by (auto simp: bind_outcome_Returns)
next
  case (OpGetEnough sz)
  with assms GetEnough_Len [of q sz q'] show ?thesis
    by (auto simp: bind_outcome_Returns)
next
  case (OpMustPut v)
  with assms MustPut_Len [of q v q'] show ?thesis
    by (auto simp: bind_outcome_Returns)
next
  case OpMustGet
  with assms MustGet_Len [of q q'] show ?thesis
    by (auto simp: bind_outcome_Returns)
qed

lemma run_Len:
  "run cs q = Returns (q', rs) \<Longrightarrow> Len q \<le> Cap q \<Longrightarrow>
     Cap q' = Cap q \<and> Len q' \<le> Cap q' \<and>
     unat (Len q') + sum_list (map get_count rs) = unat (Len q) + sum_list (map put_count rs)"
proof (induction cs arbitrary: q rs)
  case Nil
  then show ?case by simp
next
  case (Cons c cs)
  from Cons.prems(1) obtain q1 r rs1 where *: "step c q = Returns (q1, r)"
      "run cs q1 = Returns (q', rs1)" "rs = r # rs1"
    by (auto simp: bind_outcome_Returns)
  from step_Len [OF *(1) Cons.prems(2)] Cons.IH [OF *(2)] *(3) show ?case
    by auto
qed

text \<open>
  C2. After any sequence of operations on a freshly constructed queue, \<open>Len()\<close> is
  the number of elements the operations reported as put minus the number they
  reported as got (a \<open>Put\<close>, \<open>Get\<close>, \<open>MustPut\<close> or \<open>MustGet\<close> that returns without
  error counts one, a batch operation counts the number it returns as granted), and
  \<open>0 \<le> Len() \<le> Cap()\<close>: the unsigned difference \<open>tail - head\<close> stays within
  \<open>[0, capacity]\<close>, whatever the values of the two counters, so also across their
  wrap-around. The capacity never changes.
\<close>

theorem length_invariant:
  assumes "run cs (New c) = Returns (q, rs)"
  shows "int (unat (Len q)) = int (sum_list (map put_count rs)) - int (sum_list (map get_count rs))
         \<and> 0 \<le> unat (Len q) \<and> unat (Len q) \<le> unat (Cap q) \<and> Cap q = New_capacity c"
proof -
  have "Len (New c :: 'a Queue) \<le> Cap (New c :: 'a Queue)"
    by (simp add: Len_def New_def Let_def)
  from run_Len [OF assms this] have "Cap q = Cap (New c :: 'a Queue)" "Len q \<le> Cap q"
    "unat (Len q) + sum_list (map get_count rs)
       = unat (Len (New c :: 'a Queue)) + sum_list (map put_count rs)"
    by blast+
  moreover have "unat (Len (New c :: 'a Queue)) = 0"
    by (simp add: Len_def New_def Let_def)
  ultimately have "Cap q = New_capacity c" "unat (Len q) \<le> unat (Cap q)"
    "unat (Len q) + sum_list (map get_count rs) = sum_list (map put_count rs)"
    by (simp_all add: Cap_New word_le_nat_alt)
  moreover from this(3)
  have "int (unat (Len q)) = int (sum_list (map put_count rs)) - int (sum_list (map get_count rs))"
    by linarith
  ultimately show ?thesis
    by blast
qed

theorem length_invariant_witness:
  "run [OpPut 5, OpPutEnough [6, 7], OpGet] (New 2 :: int Queue) =
     Returns (\<lparr>capacity = 2, mask_q = 1, head = 1, tail = 2,
                elements = [\<lparr>getSeq = 2, putSeq = 4, elem_value = 6\<rparr>,
                            \<lparr>getSeq = 3, putSeq = 3, elem_value = 0\<rparr>]\<rparr>,
              [PutReply 1 None, PutEnoughReply 1 0, GetReply 5 1 None]) \<and>
   int (unat (Len \<lparr>capacity = 2, mask_q = 1, head = 1, tail = 2,
                elements = [\<lparr>getSeq = 2, putSeq = 4, elem_value = 6\<rparr>,
                            \<lparr>getSeq = 3, putSeq = 3, elem_value = 0 :: int\<rparr>]\<rparr>)) =
     int (sum_list (map put_count [PutReply 1 None, PutEnoughReply 1 0, GetReply (5 :: int) 1 None]))
     - int (sum_list (map get_count [PutReply 1 None, PutEnoughReply 1 0, GetReply (5 :: int) 1 None]))"
proof -
  have r: "run [OpPut 5, OpPutEnough [6, 7], OpGet] (New 2 :: int Queue) =
     Returns (\<lparr>capacity = 2, mask_q = 1, head = 1, tail = 2,
                elements = [\<lparr>getSeq = 2, putSeq = 4, elem_value = 6\<rparr>,
                            \<lparr>getSeq = 3, putSeq = 3, elem_value = 0\<rparr>]\<rparr>,
              [PutReply 1 None, PutEnoughReply 1 0, GetReply 5 1 None])"
    by code_simp
  from length_invariant [OF r] r show ?thesis
    by blast
qed

section \<open>The slot handshake\<close>

lemma list_all_update:
  "list_all P xs \<Longrightarrow> P x \<Longrightarrow> list_all P (xs[i := x])"
  by (induction xs arbitrary: i) (auto split: nat.splits)

lemma put_slots_ok: "put q p v = Returns q' \<Longrightarrow> slots_ok q \<Longrightarrow> slots_ok q'"
  by (auto simp: put_eq Let_def slots_ok_def list_all_update split: if_splits)

lemma sub_eq_add:
  fixes p a c :: u32
  shows "p = a - c \<Longrightarrow> a = p + c"
  by simp

lemma get_slots_ok:
  assumes "get q p = Returns (q', v)" and "slots_ok q"
  shows "slots_ok q'"
proof -
  let ?i = "unat (p AND mask_q q)"
  let ?e = "(elements q ! ?i)\<lparr>elem_value := 0, getSeq := p + capacity q\<rparr>"
  from assms(1) have *: "p = putSeq (elements q ! ?i) - capacity q"
      "q' = q\<lparr>elements := (elements q)[?i := ?e]\<rparr>"
    by (auto simp: get_eq Let_def split: if_splits)
  from sub_eq_add [OF *(1)] have "putSeq ?e - getSeq ?e = 0"
    by simp
  with assms(2) show ?thesis
    unfolding *(2) slots_ok_def by (simp add: list_all_update)
qed

lemma PutEnough_loop_slots_ok:
  "PutEnough_loop q vs upper i j = Returns q' \<Longrightarrow> slots_ok q \<Longrightarrow> slots_ok q'"
proof (induction q vs upper i j rule: PutEnough_loop.induct)
  case (1 q vs upper i j)
  show ?case
  proof (cases "i < upper")
    case True
    with "1.prems" obtain q1 where *: "\<not> length vs \<le> j" "put q i (vs ! j) = Returns q1"
        "PutEnough_loop q1 vs upper (i + 1) (j + 1) = Returns q'"
      by (subst (asm) PutEnough_loop.simps) (auto simp: bind_outcome_Returns split: if_splits)
    from "1.IH" [OF True *(1) *(3)] put_slots_ok [OF *(2) "1.prems"(2)] show ?thesis by simp
  next
    case False
    with "1.prems" show ?thesis
      by (subst (asm) PutEnough_loop.simps) simp
  qed
qed

lemma GetEnough_loop_slots_ok:
  "GetEnough_loop q res upper i = Returns (q', res') \<Longrightarrow> slots_ok q \<Longrightarrow> slots_ok q'"
proof (induction q res upper i rule: GetEnough_loop.induct)
  case (1 q res upper i)
  show ?case
  proof (cases "i < upper")
    case True
    with "1.prems" obtain q1 v where *: "get q i = Returns (q1, v)"
        "GetEnough_loop q1 (res @ [v]) upper (i + 1) = Returns (q', res')"
      by (subst (asm) GetEnough_loop.simps) (auto simp: bind_outcome_Returns split: if_splits)
    from "1.IH" [OF True *(2)] get_slots_ok [OF *(1) "1.prems"(2)] show ?thesis by simp
  next
    case False
    with "1.prems" show ?thesis
      by (subst (asm) GetEnough_loop.simps) simp
  qed
qed

lemma slots_ok_head [simp]: "slots_ok (q\<lparr>head := h\<rparr>) = slots_ok q"
  by (simp add: slots_ok_def)

lemma slots_ok_tail [simp]: "slots_ok (q\<lparr>tail := t\<rparr>) = slots_ok q"
  by (simp add: slots_ok_def)

lemma step_slots_ok:
  assumes "step c q = Returns (q', r)" and "slots_ok q"
  shows "slots_ok q'"
proof (cases c)
  case (OpPut v)
  with assms show ?thesis
    by (auto simp: Put_def acquirePut_eq Let_def bind_outcome_Returns
             split: if_splits dest: put_slots_ok)
next
  case OpGet
  with assms show ?thesis
    by (auto simp: Get_def acquireGet_eq Let_def bind_outcome_Returns
             split: if_splits dest: get_slots_ok)
next
  case (OpPutEnough vs)
  with assms show ?thesis
    by (auto simp: PutEnough_eq Let_def bind_outcome_Returns
             split: if_splits dest: PutEnough_loop_slots_ok)
next
  case (OpGetEnough sz)
  with assms show ?thesis
    by (auto simp: GetEnough_eq Let_def bind_outcome_Returns
             split: if_splits dest: GetEnough_loop_slots_ok)
next
  case (OpMustPut v)
  with assms show ?thesis
    by (auto simp: MustPut_def MustPut_loop_eq bind_outcome_Returns
             split: if_splits dest: put_slots_ok)
next
  case OpMustGet
  with assms show ?thesis
    by (auto simp: MustGet_def MustGet_loop_eq bind_outcome_Returns
             split: if_splits dest: get_slots_ok)
qed

lemma run_slots_ok:
  "run cs q = Returns (q', rs) \<Longrightarrow> slots_ok q \<Longrightarrow> slots_ok q'"
proof (induction cs arbitrary: q rs)
  case Nil
  then show ?case by simp
next
  case (Cons c cs)
  from Cons.prems(1) obtain q1 r rs1 where *: "step c q = Returns (q1, r)"
      "run cs q1 = Returns (q', rs1)"
    by (auto simp: bind_outcome_Returns)
  from Cons.IH [OF *(2) step_slots_ok [OF *(1) Cons.prems(2)]] show ?case .
qed

lemma New_capacity_ge2: "2 \<le> New_capacity c"
  by (simp add: New_capacity_def Let_def not_less)

lemma New_elements:
  "elements (New c :: ('e::zero) Queue) =
     \<lparr>getSeq = New_capacity c, putSeq = New_capacity c, elem_value = 0\<rparr>
     # map (\<lambda>i. \<lparr>getSeq = of_nat i, putSeq = of_nat i, elem_value = 0\<rparr>)
         [1..<unat (New_capacity c)]"
proof -
  from New_capacity_ge2 [of c] have "0 < unat (New_capacity c)"
    by (simp add: word_le_nat_alt)
  then have "[0..<unat (New_capacity c)] = 0 # [1..<unat (New_capacity c)]"
    by (simp add: upt_conv_Cons)
  then show ?thesis
    by (simp add: New_def Let_def)
qed

lemma New_slots_ok: "slots_ok (New c)"
  by (simp add: slots_ok_def New_elements list_all_iff)

section \<open>Going round the ring\<close>

text \<open>
  Runs compose, and one \<open>Put\<close> followed by one \<open>Get\<close> takes the empty queue of
  capacity 2 from counter value \<open>w\<close> to \<open>w + 1\<close>. So every counter value is reached
  from \<open>New(2)\<close>, among them the values just below \<open>2^32\<close>.
\<close>

lemma bind_outcome_assoc:
  "bind_outcome (bind_outcome m f) g = bind_outcome m (\<lambda>a. bind_outcome (f a) g)"
  by (cases m) auto

lemma run_append:
  "run (as @ bs) q =
     bind_outcome (run as q) (\<lambda>(q', rs).
       bind_outcome (run bs q') (\<lambda>(q'', rs'). Returns (q'', rs @ rs')))"
proof (induction as arbitrary: q)
  case Nil
  show ?case by (cases "run bs q") auto
next
  case (Cons a as)
  show ?case
    by (simp add: Cons.IH bind_outcome_assoc case_prod_unfold)
qed

lemma New_2: "(New 2 :: ('e::zero) Queue) = drained2 0"
  by (simp add: New_def New_capacity_def Let_def drained2_def upt_rec)

lemma and_1_even:
  fixes w :: u32
  shows "w AND 1 = 0 \<longleftrightarrow> even w"
  by (simp add: and_one_eq mod_2_eq_odd)

lemma and_1_word:
  fixes w :: u32
  shows "unat ((w + 1) AND 1) = (if even w then 1 else 0)"
  by (simp add: and_one_eq mod_2_eq_odd)

lemma round_drained2:
  "run [OpPut v, OpGet] (drained2 w) =
     Returns (drained2 (w + 1), [PutReply 1 None, GetReply v 0 None])"
  by (simp add: Put_def Get_def acquirePut_eq acquireGet_eq put_eq get_eq Let_def
        drained2_def and_1_even and_1_word)

lemma rounds_drained2:
  "run (concat (replicate n [OpPut v, OpGet])) (drained2 w) =
     Returns (drained2 (w + of_nat n), concat (replicate n [PutReply 1 None, GetReply v 0 None]))"
proof (induction n arbitrary: w)
  case 0
  show ?case by simp
next
  case (Suc n)
  have "run (concat (replicate (Suc n) [OpPut v, OpGet])) (drained2 w) =
        run ([OpPut v, OpGet] @ concat (replicate n [OpPut v, OpGet])) (drained2 w)"
    by simp
  also have "\<dots> = Returns (drained2 (w + of_nat (Suc n)),
      concat (replicate (Suc n) [PutReply 1 None, GetReply v 0 None]))"
    unfolding run_append round_drained2 by (simp add: Suc.IH ac_simps)
  finally show ?case .
qed

lemma near_wrap:
  "run (concat (replicate 4294967294 [OpPut 0, OpGet])) (New 2 :: int Queue) =
     Returns (\<lparr>capacity = 2, mask_q = 1, head = 4294967294, tail = 4294967294,
        elements = [\<lparr>getSeq = 0, putSeq = 0, elem_value = 0\<rparr>,
                    \<lparr>getSeq = 4294967295, putSeq = 4294967295, elem_value = 0\<rparr>]\<rparr>,
        concat (replicate 4294967294 [PutReply 1 None, GetReply 0 0 None]))"
  unfolding New_2 rounds_drained2 by (simp add: drained2_def)

section \<open>Construction: the round-up\<close>

lemma spread_step:
  fixes x y :: u32
  assumes y: "\<And>n. bit y n \<longleftrightarrow> (\<exists>i\<le>j. bit x (n + i))"
    and s: "s = j + 1" and j': "j' = j + s"
  shows "bit (y OR drop_bit s y) n \<longleftrightarrow> (\<exists>i\<le>j'. bit x (n + i))"
proof
  assume "bit (y OR drop_bit s y) n"
  then have "bit y n \<or> bit y (s + n)"
    by (simp add: bit_or_iff bit_drop_bit_eq)
  then consider i where "i \<le> j" "bit x (n + i)" | i where "i \<le> j" "bit x (s + n + i)"
    unfolding y by blast
  then show "\<exists>i\<le>j'. bit x (n + i)"
  proof cases
    case 1
    from 1(1) have "i \<le> j'" unfolding j' by linarith
    with 1(2) show ?thesis by blast
  next
    case 2
    from 2(1) have "s + i \<le> j'" unfolding j' by linarith
    moreover have "s + n + i = n + (s + i)" by linarith
    ultimately show ?thesis using 2(2) by metis
  qed
next
  assume "\<exists>i\<le>j'. bit x (n + i)"
  then obtain i where i: "i \<le> j'" "bit x (n + i)" by blast
  have "bit y n \<or> bit y (s + n)"
  proof (cases "i \<le> j")
    case True
    with i(2) show ?thesis unfolding y by blast
  next
    case False
    with i(1) have "i - s \<le> j" "s + n + (i - s) = n + i"
      unfolding j' s by linarith+
    with i(2) show ?thesis unfolding y by metis
  qed
  then show "bit (y OR drop_bit s y) n"
    by (simp add: bit_or_iff bit_drop_bit_eq)
qed

lemma spread_bits:
  fixes x :: u32
  defines "c2 \<equiv> x OR drop_bit 1 x"
  defines "c3 \<equiv> c2 OR drop_bit 2 c2"
  defines "c4 \<equiv> c3 OR drop_bit 4 c3"
  defines "c5 \<equiv> c4 OR drop_bit 8 c4"
  defines "c6 \<equiv> c5 OR drop_bit 16 c5"
  shows "bit c6 n \<longleftrightarrow> (\<exists>i\<le>31. bit x (n + i))"
proof -
  have s0: "bit x n \<longleftrightarrow> (\<exists>i\<le>0. bit x (n + i))" for n
    by simp
  have s1: "bit c2 n \<longleftrightarrow> (\<exists>i\<le>1. bit x (n + i))" for n
    unfolding c2_def by (rule spread_step [OF s0]) simp_all
  have s2: "bit c3 n \<longleftrightarrow> (\<exists>i\<le>3. bit x (n + i))" for n
    unfolding c3_def by (rule spread_step [OF s1]) simp_all
  have s3: "bit c4 n \<longleftrightarrow> (\<exists>i\<le>7. bit x (n + i))" for n
    unfolding c4_def by (rule spread_step [OF s2]) simp_all
  have s4: "bit c5 n \<longleftrightarrow> (\<exists>i\<le>15. bit x (n + i))" for n
    unfolding c5_def by (rule spread_step [OF s3]) simp_all
  show ?thesis
    unfolding c6_def by (rule spread_step [OF s4]) simp_all
qed

lemma top_bit_nat:
  fixes N :: nat
  assumes "2 ^ k \<le> N" "N < 2 ^ (k + 1)"
  shows "bit N m \<longleftrightarrow> (m = k \<or> (m < k \<and> bit N m))"
proof (cases "m < k")
  case True
  then show ?thesis by auto
next
  case False
  show ?thesis
  proof (cases "m = k")
    case True
    from assms have "N div 2 ^ k = 1"
      by (simp add: div_nat_eqI)
    with True show ?thesis by (simp add: bit_iff_odd)
  next
    case ne: False
    with False have "k + 1 \<le> m" by simp
    then have "(2::nat) ^ (k + 1) \<le> 2 ^ m"
      by (rule power_increasing) simp
    with assms(2) have "N div 2 ^ m = 0" by simp
    with ne False show ?thesis by (simp add: bit_iff_odd)
  qed
qed

lemma unat_pow2:
  assumes "n < 32"
  shows "unat ((2::u32) ^ n) = 2 ^ n"
proof -
  from assms have "(2::nat) ^ n < 2 ^ 32"
    by (intro power_strict_increasing) simp_all
  have "unat (of_nat (2 ^ n) :: u32) = 2 ^ n mod 2 ^ LENGTH(32)"
    by (rule unat_of_nat)
  also from \<open>2 ^ n < 2 ^ 32\<close> have "\<dots> = 2 ^ n"
    by simp
  finally show ?thesis by simp
qed

lemma New_capacity_pow2:
  assumes lo: "2 ^ k \<le> unat (c - 1)" and hi: "unat (c - 1) < 2 ^ (k + 1)" and k: "k < 31"
  shows "New_capacity c = 2 ^ (k + 1)"
proof -
  define x where "x = c - 1"
  define s where "s = (let c2 = x OR drop_bit 1 x;
          c3 = c2 OR drop_bit 2 c2;
          c4 = c3 OR drop_bit 4 c3;
          c5 = c4 OR drop_bit 8 c4
      in c5 OR drop_bit 16 c5)"
  have bits: "bit s n \<longleftrightarrow> (\<exists>i\<le>31. bit x (n + i))" for n
    unfolding s_def Let_def by (rule spread_bits)
  have top: "bit x k"
    using top_bit_nat [OF lo hi, of k] by (simp add: bit_unsigned_iff x_def)
  have above: "\<not> bit x m" if "k < m" for m
    using top_bit_nat [OF lo hi, of m] that by (simp add: bit_unsigned_iff x_def)
  have "bit s n \<longleftrightarrow> n \<le> k" for n
  proof
    assume "bit s n"
    then obtain i where "bit x (n + i)" unfolding bits by blast
    with above [of "n + i"] show "n \<le> k" by (cases "k < n + i") simp_all
  next
    assume "n \<le> k"
    with k have "k - n \<le> 31" "n + (k - n) = k" by simp_all
    with top show "bit s n" unfolding bits by metis
  qed
  then have "s = mask (k + 1)"
    using k by (intro bit_word_eqI) (simp add: bit_mask_iff less_Suc_eq_le)
  then have s1: "s + 1 = 2 ^ (k + 1)"
    by (simp add: mask_eq_exp_minus_1)
  from k have "unat ((2::u32) ^ (k + 1)) = 2 ^ (k + 1)"
    by (intro unat_pow2) simp
  moreover have "(2::nat) ^ 1 \<le> 2 ^ (k + 1)"
    by (intro power_increasing) simp_all
  ultimately have "\<not> (2::u32) ^ (k + 1) < 2"
    by (simp add: word_less_nat_alt)
  moreover have "New_capacity c = (if s + 1 < 2 then 2 else s + 1)"
    by (simp add: New_capacity_def s_def x_def Let_def)
  ultimately show ?thesis
    by (simp add: s1)
qed

text \<open>
  C5, amended. For every requested capacity \<open>c\<close> with \<open>1 \<le> c \<le> 2^31\<close>, \<open>Cap()\<close> of
  \<open>New(c)\<close> is a power of two \<open>2^k\<close> with \<open>1 \<le> k \<le> 31\<close>, it satisfies
  \<open>max(2, c) \<le> Cap() < 2 * max(2, c)\<close>, and it equals \<open>c\<close> when \<open>c\<close> is itself a power
  of two that is at least 2.
\<close>

theorem New_capacity_bounds:
  assumes "1 \<le> c" and "c \<le> 2147483648"
  shows "(\<exists>k. 1 \<le> k \<and> k \<le> 31 \<and> unat (Cap (New c :: ('e::zero) Queue)) = 2 ^ k) \<and>
         max 2 (unat c) \<le> unat (Cap (New c :: 'e Queue)) \<and>
         unat (Cap (New c :: 'e Queue)) < 2 * max 2 (unat c) \<and>
         ((\<exists>j. 1 \<le> j \<and> unat c = 2 ^ j) \<longrightarrow> Cap (New c :: 'e Queue) = c)"
proof (cases "c = 1")
  case True
  have "New_capacity 1 = 2"
    by (simp add: New_capacity_def)
  moreover have "unat c \<noteq> 2 ^ j" if "1 \<le> j" for j
  proof -
    from that have "(2::nat) ^ 1 \<le> 2 ^ j"
      by (intro power_increasing) simp_all
    with True show ?thesis by simp
  qed
  ultimately show ?thesis
    using True by (auto simp: Cap_New intro: exI [of _ 1])
next
  case False
  from assms(1) have c0: "c \<noteq> 0" by auto
  then have x: "unat (c - 1) = unat c - 1"
    by (rule unat_minus_one)
  from assms(2) have hi: "unat c \<le> 2 ^ 31"
    by (simp add: word_le_nat_alt)
  from c0 False have lo: "2 \<le> unat c"
    by unat_arith
  with x have "1 \<le> unat (c - 1)" by simp
  from ex_power_ivl1 [OF _ this, of 2] obtain k
    where k: "2 ^ k \<le> unat (c - 1)" "unat (c - 1) < 2 ^ (k + 1)"
    by auto
  from k(1) x hi lo have "(2::nat) ^ k < 2 ^ 31" by simp
  then have k31: "k < 31"
    by (rule power_less_imp_less_exp [rotated]) simp
  from New_capacity_pow2 [OF k k31] have cap: "New_capacity c = 2 ^ (k + 1)" .
  from k31 have ucap: "unat (New_capacity c) = 2 ^ (k + 1)"
    unfolding cap by (intro unat_pow2) simp
  have p: "(2::nat) ^ (k + 1) = 2 * 2 ^ k" by simp
  from k x lo have b1: "unat c \<le> 2 ^ (k + 1)" and b2: "(2::nat) ^ (k + 1) < 2 * unat c"
    unfolding p by linarith+
  have "Cap (New c :: 'e Queue) = c" if j: "unat c = 2 ^ j" for j
  proof -
    define K J where "K = k + 1" and "J = j + 1"
    from b1 b2 j have "(2::nat) ^ j \<le> 2 ^ K" "(2::nat) ^ K < 2 ^ J"
      unfolding K_def J_def by simp_all
    then have "j \<le> K" "K < J"
      by simp_all
    then have "j = k + 1" by (simp add: K_def J_def)
    with ucap j have "unat (New_capacity c) = unat c" by simp
    then show ?thesis by (simp add: Cap_New word_unat_eq_iff)
  qed
  then have D: "(\<exists>j. 1 \<le> j \<and> unat c = 2 ^ j) \<longrightarrow> Cap (New c :: 'e Queue) = c"
    by blast
  have A: "\<exists>k. 1 \<le> k \<and> k \<le> 31 \<and> unat (Cap (New c :: 'e Queue)) = 2 ^ k"
    using k31 ucap by (intro exI [of _ "k + 1"]) (simp add: Cap_New)
  from lo have m: "max 2 (unat c) = unat c" by simp
  from b1 b2 ucap have B: "max 2 (unat c) \<le> unat (Cap (New c :: 'e Queue))"
    and C: "unat (Cap (New c :: 'e Queue)) < 2 * max 2 (unat c)"
    unfolding m Cap_New by simp_all
  from A B C D show ?thesis
    by blast
qed

text \<open>
  C5 as stated, for every \<open>c \<ge> 1\<close>, fails above \<open>2^31\<close>: no \<open>uint32\<close> power of two is
  as large as such a \<open>c\<close>. At \<open>c = 2^31 + 1\<close> the capacity is 2.
\<close>

theorem New_capacity_counterexample:
  "\<not> max 2 (unat (2147483649 :: u32)) \<le> unat (Cap (New 2147483649 :: int Queue))"
  by (simp add: Cap_New New_capacity_def Let_def)

theorem New_capacity_bounds_witness:
  "(1::u32) \<le> 8 \<and> (8::u32) \<le> 2147483648 \<and> (\<exists>j. 1 \<le> j \<and> unat (8::u32) = 2 ^ j) \<and>
   Cap (New 8 :: int Queue) = 8 \<and>
   max 2 (unat (8::u32)) \<le> unat (Cap (New 8 :: int Queue)) \<and>
   unat (Cap (New 8 :: int Queue)) < 2 * max 2 (unat (8::u32))"
proof -
  have h1: "(1::u32) \<le> 8" and h2: "(8::u32) \<le> 2147483648"
    by simp_all
  have h3: "\<exists>j. 1 \<le> j \<and> unat (8::u32) = 2 ^ j"
    by (intro exI [of _ 3]) simp
  from New_capacity_bounds [OF h1 h2, where ?'e = int] h1 h2 h3 show ?thesis
    by blast
qed

section \<open>Batch operations across the wrap of the counters\<close>

text \<open>
  The loops of \<open>PutEnough\<close> and \<open>GetEnough\<close> run while \<open>i < position + actualSize\<close>.
  When the reserved positions reach past \<open>2^32 - 1\<close> the sum wraps to a value below
  \<open>position\<close>, the test fails at once and no slot is written or read, although the
  reservation has moved \<open>tail\<close> or \<open>head\<close> and the granted count is returned. The
  single-element operations have no such loop and pass the wrap.
\<close>

lemma received_rounds:
  "received_by (concat (replicate n [PutReply 1 None, GetReply v 0 None]) @ rs) =
     replicate n v @ received_by rs"
  by (induction n) (simp_all add: received_by_def)

lemma supplied_rounds:
  "length cs = length rs \<Longrightarrow>
   supplied_by (concat (replicate n [OpPut v, OpGet]) @ cs)
     (concat (replicate n [PutReply 1 None, GetReply v 0 None]) @ rs) =
     replicate n v @ supplied_by cs rs"
  by (induction n) (simp_all add: supplied_by_def)

lemma wrap_scenario_fifo:
  "run [OpPutEnough [10], OpPut 20, OpGetEnough 1, OpGet]
     \<lparr>capacity = 2, mask_q = 1, head = 4294967294, tail = 4294967294,
        elements = [\<lparr>getSeq = 0, putSeq = 0, elem_value = 0\<rparr>,
                    \<lparr>getSeq = 4294967295, putSeq = 4294967295, elem_value = 0 :: int\<rparr>]\<rparr>
   = Returns (\<lparr>capacity = 2, mask_q = 1, head = 0, tail = 0,
        elements = [\<lparr>getSeq = 2, putSeq = 2, elem_value = 0\<rparr>,
                    \<lparr>getSeq = 4294967295, putSeq = 4294967295, elem_value = 0 :: int\<rparr>]\<rparr>,
        [PutEnoughReply 1 1, PutReply 0 None, GetEnoughReply [] 1 1, GetReply 20 0 None])"
  by code_simp

text \<open>
  C1. The claim: the values returned by successful gets are the values passed to
  successful puts, in order. The code on a fresh queue of capacity 2, after
  \<open>2^32 - 2\<close> rounds of \<open>Put(0); Get()\<close>: \<open>PutEnough(10)\<close> reports one element put,
  \<open>Put(20)\<close> succeeds, \<open>GetEnough(1)\<close> reports one element got and returns no value,
  and \<open>Get()\<close> returns 20. The values handed over end in 10, 20; the values returned
  end in 20: the value 10 is lost and the first value returned after it is 20.
\<close>

theorem fifo_at_wrap:
  "run (concat (replicate 4294967294 [OpPut 0, OpGet])
          @ [OpPutEnough [10], OpPut 20, OpGetEnough 1, OpGet]) (New 2 :: int Queue) =
     Returns (\<lparr>capacity = 2, mask_q = 1, head = 0, tail = 0,
        elements = [\<lparr>getSeq = 2, putSeq = 2, elem_value = 0\<rparr>,
                    \<lparr>getSeq = 4294967295, putSeq = 4294967295, elem_value = 0\<rparr>]\<rparr>,
        concat (replicate 4294967294 [PutReply 1 None, GetReply 0 0 None])
          @ [PutEnoughReply 1 1, PutReply 0 None, GetEnoughReply [] 1 1, GetReply 20 0 None]) \<and>
   supplied_by (concat (replicate 4294967294 [OpPut 0, OpGet])
          @ [OpPutEnough [10], OpPut 20, OpGetEnough 1, OpGet])
       (concat (replicate 4294967294 [PutReply 1 None, GetReply 0 0 None])
          @ [PutEnoughReply 1 1, PutReply 0 None, GetEnoughReply [] 1 1, GetReply 20 0 None])
     = replicate 4294967294 0 @ [10, 20 :: int] \<and>
   received_by (concat (replicate 4294967294 [PutReply 1 None, GetReply 0 0 None])
          @ [PutEnoughReply 1 1, PutReply 0 None, GetEnoughReply [] 1 1, GetReply 20 0 None])
     = replicate 4294967294 0 @ [20 :: int]"
proof (intro conjI)
  show "run (concat (replicate 4294967294 [OpPut 0, OpGet])
          @ [OpPutEnough [10], OpPut 20, OpGetEnough 1, OpGet]) (New 2 :: int Queue) =
     Returns (\<lparr>capacity = 2, mask_q = 1, head = 0, tail = 0,
        elements = [\<lparr>getSeq = 2, putSeq = 2, elem_value = 0\<rparr>,
                    \<lparr>getSeq = 4294967295, putSeq = 4294967295, elem_value = 0\<rparr>]\<rparr>,
        concat (replicate 4294967294 [PutReply 1 None, GetReply 0 0 None])
          @ [PutEnoughReply 1 1, PutReply 0 None, GetEnoughReply [] 1 1, GetReply 20 0 None])"
    unfolding run_append near_wrap bind_outcome.simps prod.case wrap_scenario_fifo ..
  show "supplied_by (concat (replicate 4294967294 [OpPut 0, OpGet])
          @ [OpPutEnough [10], OpPut 20, OpGetEnough 1, OpGet])
       (concat (replicate 4294967294 [PutReply 1 None, GetReply 0 0 None])
          @ [PutEnoughReply 1 1, PutReply 0 None, GetEnoughReply [] 1 1, GetReply 20 0 None])
     = replicate 4294967294 0 @ [10, 20 :: int]"
    unfolding supplied_rounds [of "[OpPutEnough [10], OpPut 20, OpGetEnough 1, OpGet]"
        "[PutEnoughReply 1 1, PutReply 0 None, GetEnoughReply [] 1 1, GetReply 20 0 None]", simplified]
    by (simp add: supplied_by_def)
  show "received_by (concat (replicate 4294967294 [PutReply 1 None, GetReply 0 0 None])
          @ [PutEnoughReply 1 1, PutReply 0 None, GetEnoughReply [] 1 1, GetReply 20 0 None])
     = replicate 4294967294 0 @ [20 :: int]"
    unfolding received_rounds by (simp add: received_by_def)
qed

text \<open>
  C3. The claim: on an empty queue, \<open>PutEnough(vs...)\<close> followed by
  \<open>GetEnough(len(vs))\<close> returns \<open>vs\<close> when \<open>len(vs) \<le> Cap()\<close>. The code on the empty
  queue of capacity 2 reached after \<open>2^32 - 2\<close> rounds of \<open>Put(0); Get()\<close>, with
  \<open>vs = [10, 20]\<close>: \<open>PutEnough\<close> returns \<open>(2, 0)\<close> and writes no slot, \<open>GetEnough(2)\<close>
  returns the empty sequence with the count 2.
\<close>

theorem batch_round_trip_at_wrap:
  "run (concat (replicate 4294967294 [OpPut 0, OpGet])) (New 2 :: int Queue) =
     Returns (\<lparr>capacity = 2, mask_q = 1, head = 4294967294, tail = 4294967294,
        elements = [\<lparr>getSeq = 0, putSeq = 0, elem_value = 0\<rparr>,
                    \<lparr>getSeq = 4294967295, putSeq = 4294967295, elem_value = 0\<rparr>]\<rparr>,
        concat (replicate 4294967294 [PutReply 1 None, GetReply 0 0 None])) \<and>
   Len \<lparr>capacity = 2, mask_q = 1, head = 4294967294, tail = 4294967294,
        elements = [\<lparr>getSeq = 0, putSeq = 0, elem_value = 0\<rparr>,
                    \<lparr>getSeq = 4294967295, putSeq = 4294967295, elem_value = 0 :: int\<rparr>]\<rparr> = 0 \<and>
   Cap \<lparr>capacity = 2, mask_q = 1, head = 4294967294, tail = 4294967294,
        elements = [\<lparr>getSeq = 0, putSeq = 0, elem_value = 0\<rparr>,
                    \<lparr>getSeq = 4294967295, putSeq = 4294967295, elem_value = 0 :: int\<rparr>]\<rparr> = 2 \<and>
   PutEnough \<lparr>capacity = 2, mask_q = 1, head = 4294967294, tail = 4294967294,
        elements = [\<lparr>getSeq = 0, putSeq = 0, elem_value = 0\<rparr>,
                    \<lparr>getSeq = 4294967295, putSeq = 4294967295, elem_value = 0\<rparr>]\<rparr> [10, 20 :: int] =
     Returns (\<lparr>capacity = 2, mask_q = 1, head = 4294967294, tail = 0,
        elements = [\<lparr>getSeq = 0, putSeq = 0, elem_value = 0\<rparr>,
                    \<lparr>getSeq = 4294967295, putSeq = 4294967295, elem_value = 0\<rparr>]\<rparr>, 2, 0) \<and>
   GetEnough \<lparr>capacity = 2, mask_q = 1, head = 4294967294, tail = 0,
        elements = [\<lparr>getSeq = 0, putSeq = 0, elem_value = 0\<rparr>,
                    \<lparr>getSeq = 4294967295, putSeq = 4294967295, elem_value = 0 :: int\<rparr>]\<rparr> 2 =
     Returns (\<lparr>capacity = 2, mask_q = 1, head = 0, tail = 0,
        elements = [\<lparr>getSeq = 0, putSeq = 0, elem_value = 0\<rparr>,
                    \<lparr>getSeq = 4294967295, putSeq = 4294967295, elem_value = 0\<rparr>]\<rparr>, [], 2, 0)"
proof (intro conjI)
  show "PutEnough \<lparr>capacity = 2, mask_q = 1, head = 4294967294, tail = 4294967294,
        elements = [\<lparr>getSeq = 0, putSeq = 0, elem_value = 0\<rparr>,
                    \<lparr>getSeq = 4294967295, putSeq = 4294967295, elem_value = 0\<rparr>]\<rparr> [10, 20 :: int] =
     Returns (\<lparr>capacity = 2, mask_q = 1, head = 4294967294, tail = 0,
        elements = [\<lparr>getSeq = 0, putSeq = 0, elem_value = 0\<rparr>,
                    \<lparr>getSeq = 4294967295, putSeq = 4294967295, elem_value = 0\<rparr>]\<rparr>, 2, 0)"
    by code_simp
  show "GetEnough \<lparr>capacity = 2, mask_q = 1, head = 4294967294, tail = 0,
        elements = [\<lparr>getSeq = 0, putSeq = 0, elem_value = 0\<rparr>,
                    \<lparr>getSeq = 4294967295, putSeq = 4294967295, elem_value = 0 :: int\<rparr>]\<rparr> 2 =
     Returns (\<lparr>capacity = 2, mask_q = 1, head = 0, tail = 0,
        elements = [\<lparr>getSeq = 0, putSeq = 0, elem_value = 0\<rparr>,
                    \<lparr>getSeq = 4294967295, putSeq = 4294967295, elem_value = 0\<rparr>]\<rparr>, [], 2, 0)"
    by code_simp
qed (simp_all add: near_wrap Len_def Cap_def)

lemma before_wrap_one_left:
  "run (concat (replicate 4294967293 [OpPut 0, OpGet]) @ [OpPut 5]) (New 2 :: int Queue) =
     Returns (\<lparr>capacity = 2, mask_q = 1, head = 4294967293, tail = 4294967294,
        elements = [\<lparr>getSeq = 4294967294, putSeq = 0, elem_value = 5\<rparr>,
                    \<lparr>getSeq = 4294967295, putSeq = 4294967295, elem_value = 0\<rparr>]\<rparr>,
        concat (replicate 4294967293 [PutReply 1 None, GetReply 0 0 None]) @ [PutReply 1 None])"
proof -
  have "run [OpPut 5] (drained2 4294967293 :: int Queue) =
     Returns (\<lparr>capacity = 2, mask_q = 1, head = 4294967293, tail = 4294967294,
        elements = [\<lparr>getSeq = 4294967294, putSeq = 0, elem_value = 5\<rparr>,
                    \<lparr>getSeq = 4294967295, putSeq = 4294967295, elem_value = 0\<rparr>]\<rparr>,
        [PutReply 1 None])"
    by code_simp
  then show ?thesis
    unfolding run_append New_2 rounds_drained2 by simp
qed

text \<open>
  C7. The claim: with \<open>free = Cap() - Len() > 0\<close> and more than \<open>free\<close> values,
  \<open>PutEnough\<close> inserts exactly the first \<open>free\<close> values and returns \<open>(free, 0)\<close>. The
  code on the queue of capacity 2 reached after \<open>2^32 - 3\<close> rounds of
  \<open>Put(0); Get()\<close> and one \<open>Put(5)\<close>, where \<open>free = 1\<close>, with the values \<open>[10, 20]\<close>:
  \<open>PutEnough\<close> returns \<open>(1, 0)\<close> and leaves every slot as it was, so the value 10 is
  not inserted. Of two following calls of \<open>Get()\<close> the first returns 5 and the second
  waits for ever for the slot that was never written.
\<close>

theorem partial_batch_put_at_wrap:
  "run (concat (replicate 4294967293 [OpPut 0, OpGet]) @ [OpPut 5]) (New 2 :: int Queue) =
     Returns (\<lparr>capacity = 2, mask_q = 1, head = 4294967293, tail = 4294967294,
        elements = [\<lparr>getSeq = 4294967294, putSeq = 0, elem_value = 5\<rparr>,
                    \<lparr>getSeq = 4294967295, putSeq = 4294967295, elem_value = 0\<rparr>]\<rparr>,
        concat (replicate 4294967293 [PutReply 1 None, GetReply 0 0 None]) @ [PutReply 1 None]) \<and>
   Cap \<lparr>capacity = 2, mask_q = 1, head = 4294967293, tail = 4294967294,
        elements = [\<lparr>getSeq = 4294967294, putSeq = 0, elem_value = 5\<rparr>,
                    \<lparr>getSeq = 4294967295, putSeq = 4294967295, elem_value = 0 :: int\<rparr>]\<rparr>
     - Len \<lparr>capacity = 2, mask_q = 1, head = 4294967293, tail = 4294967294,
        elements = [\<lparr>getSeq = 4294967294, putSeq = 0, elem_value = 5\<rparr>,
                    \<lparr>getSeq = 4294967295, putSeq = 4294967295, elem_value = 0 :: int\<rparr>]\<rparr> = 1 \<and>
   PutEnough \<lparr>capacity = 2, mask_q = 1, head = 4294967293, tail = 4294967294,
        elements = [\<lparr>getSeq = 4294967294, putSeq = 0, elem_value = 5\<rparr>,
                    \<lparr>getSeq = 4294967295, putSeq = 4294967295, elem_value = 0\<rparr>]\<rparr> [10, 20 :: int] =
     Returns (\<lparr>capacity = 2, mask_q = 1, head = 4294967293, tail = 4294967295,
        elements = [\<lparr>getSeq = 4294967294, putSeq = 0, elem_value = 5\<rparr>,
                    \<lparr>getSeq = 4294967295, putSeq = 4294967295, elem_value = 0\<rparr>]\<rparr>, 1, 0) \<and>
   run [OpGet, OpGet] \<lparr>capacity = 2, mask_q = 1, head = 4294967293, tail = 4294967295,
        elements = [\<lparr>getSeq = 4294967294, putSeq = 0, elem_value = 5\<rparr>,
                    \<lparr>getSeq = 4294967295, putSeq = 4294967295, elem_value = 0 :: int\<rparr>]\<rparr> = Spins"
proof (intro conjI)
  show "PutEnough \<lparr>capacity = 2, mask_q = 1, head = 4294967293, tail = 4294967294,
        elements = [\<lparr>getSeq = 4294967294, putSeq = 0, elem_value = 5\<rparr>,
                    \<lparr>getSeq = 4294967295, putSeq = 4294967295, elem_value = 0\<rparr>]\<rparr> [10, 20 :: int] =
     Returns (\<lparr>capacity = 2, mask_q = 1, head = 4294967293, tail = 4294967295,
        elements = [\<lparr>getSeq = 4294967294, putSeq = 0, elem_value = 5\<rparr>,
                    \<lparr>getSeq = 4294967295, putSeq = 4294967295, elem_value = 0\<rparr>]\<rparr>, 1, 0)"
    by code_simp
  show "run [OpGet, OpGet] \<lparr>capacity = 2, mask_q = 1, head = 4294967293, tail = 4294967295,
        elements = [\<lparr>getSeq = 4294967294, putSeq = 0, elem_value = 5\<rparr>,
                    \<lparr>getSeq = 4294967295, putSeq = 4294967295, elem_value = 0 :: int\<rparr>]\<rparr> = Spins"
    by (simp add: Get_def acquireGet_eq get_eq Let_def)
qed (simp_all add: before_wrap_one_left Len_def Cap_def)

section \<open>The handshake invariant\<close>

text \<open>
  C10, amended. After construction and after every completed sequence of operations,
  every slot has \<open>putSeq - getSeq\<close> (unsigned 32-bit subtraction) equal to 0 or to
  \<open>capacity\<close>. A \<open>put\<close> that completes finds the difference 0 in its slot, stores the
  value and adds \<open>capacity\<close> to \<open>putSeq\<close>, so the difference becomes \<open>capacity\<close>: the
  slot holds a published element. A \<open>get\<close> that completes finds the difference
  \<open>capacity\<close>, returns the stored value and adds \<open>capacity\<close> to \<open>getSeq\<close>, so the
  difference is 0 again. No other slot changes. The additions are modulo \<open>2^32\<close>.
\<close>

theorem slot_handshake:
  "(run cs (New c) = Returns (q, rs) \<longrightarrow> slots_ok q) \<and>
   (put q0 p v = Returns q1 \<longrightarrow>
      unat (p AND mask_q q0) < length (elements q0) \<and>
      putSeq (elements q0 ! unat (p AND mask_q q0)) - getSeq (elements q0 ! unat (p AND mask_q q0)) = 0 \<and>
      elements q1 = (elements q0)[unat (p AND mask_q q0) :=
        (elements q0 ! unat (p AND mask_q q0))
          \<lparr>elem_value := v,
           putSeq := putSeq (elements q0 ! unat (p AND mask_q q0)) + capacity q0\<rparr>]) \<and>
   (get q3 p' = Returns (q2, v') \<longrightarrow>
      unat (p' AND mask_q q3) < length (elements q3) \<and>
      putSeq (elements q3 ! unat (p' AND mask_q q3)) - getSeq (elements q3 ! unat (p' AND mask_q q3))
        = capacity q3 \<and>
      v' = elem_value (elements q3 ! unat (p' AND mask_q q3)) \<and>
      elements q2 = (elements q3)[unat (p' AND mask_q q3) :=
        (elements q3 ! unat (p' AND mask_q q3))
          \<lparr>elem_value := 0,
           getSeq := getSeq (elements q3 ! unat (p' AND mask_q q3)) + capacity q3\<rparr>])"
proof (intro conjI impI)
  assume "run cs (New c) = Returns (q, rs)"
  from run_slots_ok [OF this New_slots_ok] show "slots_ok q" .
next
  assume "put q0 p v = Returns q1"
  then have *: "unat (p AND mask_q q0) < length (elements q0)"
      "p = getSeq (elements q0 ! unat (p AND mask_q q0))"
      "p = putSeq (elements q0 ! unat (p AND mask_q q0))"
      "q1 = q0\<lparr>elements := (elements q0)[unat (p AND mask_q q0) :=
         (elements q0 ! unat (p AND mask_q q0))\<lparr>elem_value := v, putSeq := p + capacity q0\<rparr>]\<rparr>"
    by (auto simp: put_eq Let_def split: if_splits)
  show "unat (p AND mask_q q0) < length (elements q0)" by (rule *(1))
  from *(2,3) show "putSeq (elements q0 ! unat (p AND mask_q q0))
      - getSeq (elements q0 ! unat (p AND mask_q q0)) = 0"
    by simp
  show "elements q1 = (elements q0)[unat (p AND mask_q q0) :=
        (elements q0 ! unat (p AND mask_q q0))
          \<lparr>elem_value := v,
           putSeq := putSeq (elements q0 ! unat (p AND mask_q q0)) + capacity q0\<rparr>]"
    unfolding *(4) *(3) [symmetric] by simp
next
  assume "get q3 p' = Returns (q2, v')"
  then have *: "unat (p' AND mask_q q3) < length (elements q3)"
      "p' = getSeq (elements q3 ! unat (p' AND mask_q q3))"
      "p' = putSeq (elements q3 ! unat (p' AND mask_q q3)) - capacity q3"
      "q2 = q3\<lparr>elements := (elements q3)[unat (p' AND mask_q q3) :=
         (elements q3 ! unat (p' AND mask_q q3))\<lparr>elem_value := 0, getSeq := p' + capacity q3\<rparr>]\<rparr>"
      "v' = elem_value (elements q3 ! unat (p' AND mask_q q3))"
    by (auto simp: get_eq Let_def split: if_splits)
  show "unat (p' AND mask_q q3) < length (elements q3)" by (rule *(1))
  show "v' = elem_value (elements q3 ! unat (p' AND mask_q q3))" by (rule *(5))
  have "putSeq (elements q3 ! unat (p' AND mask_q q3)) = p' + capacity q3"
    by (rule sub_eq_add [OF *(3)])
  then have "putSeq (elements q3 ! unat (p' AND mask_q q3)) - p' = capacity q3"
    by simp
  then show "putSeq (elements q3 ! unat (p' AND mask_q q3))
      - getSeq (elements q3 ! unat (p' AND mask_q q3)) = capacity q3"
    unfolding *(2) [symmetric] .
  show "elements q2 = (elements q3)[unat (p' AND mask_q q3) :=
        (elements q3 ! unat (p' AND mask_q q3))
          \<lparr>elem_value := 0,
           getSeq := getSeq (elements q3 ! unat (p' AND mask_q q3)) + capacity q3\<rparr>]"
    unfolding *(4) *(2) [symmetric] by simp
qed

theorem slot_handshake_witness:
  "run [OpPut 5] (New 2 :: int Queue) =
     Returns (\<lparr>capacity = 2, mask_q = 1, head = 0, tail = 1,
        elements = [\<lparr>getSeq = 2, putSeq = 2, elem_value = 0\<rparr>,
                    \<lparr>getSeq = 1, putSeq = 3, elem_value = 5\<rparr>]\<rparr>, [PutReply 1 None]) \<and>
   slots_ok \<lparr>capacity = 2, mask_q = 1, head = 0, tail = 1,
        elements = [\<lparr>getSeq = 2, putSeq = 2, elem_value = 0\<rparr>,
                    \<lparr>getSeq = 1, putSeq = 3, elem_value = 5 :: int\<rparr>]\<rparr> \<and>
   put \<lparr>capacity = 2, mask_q = 1, head = 0, tail = 1,
        elements = [\<lparr>getSeq = 2, putSeq = 2, elem_value = 0\<rparr>,
                    \<lparr>getSeq = 1, putSeq = 1, elem_value = 0\<rparr>]\<rparr> 1 (5 :: int) =
     Returns \<lparr>capacity = 2, mask_q = 1, head = 0, tail = 1,
        elements = [\<lparr>getSeq = 2, putSeq = 2, elem_value = 0\<rparr>,
                    \<lparr>getSeq = 1, putSeq = 3, elem_value = 5\<rparr>]\<rparr> \<and>
   get \<lparr>capacity = 2, mask_q = 1, head = 1, tail = 1,
        elements = [\<lparr>getSeq = 2, putSeq = 2, elem_value = 0\<rparr>,
                    \<lparr>getSeq = 1, putSeq = 3, elem_value = 5 :: int\<rparr>]\<rparr> 1 =
     Returns (\<lparr>capacity = 2, mask_q = 1, head = 1, tail = 1,
        elements = [\<lparr>getSeq = 2, putSeq = 2, elem_value = 0\<rparr>,
                    \<lparr>getSeq = 3, putSeq = 3, elem_value = 0\<rparr>]\<rparr>, 5) \<and>
   putSeq (\<lparr>getSeq = 1, putSeq = 3, elem_value = 5 :: int\<rparr>)
     - getSeq (\<lparr>getSeq = 1, putSeq = 3, elem_value = 5 :: int\<rparr>) = (2 :: u32)"
proof -
  let ?a = "\<lparr>capacity = 2, mask_q = 1, head = 0, tail = 1,
        elements = [\<lparr>getSeq = 2, putSeq = 2, elem_value = 0\<rparr>,
                    \<lparr>getSeq = 1, putSeq = 1, elem_value = 0 :: int\<rparr>]\<rparr>"
  let ?b = "\<lparr>capacity = 2, mask_q = 1, head = 0, tail = 1,
        elements = [\<lparr>getSeq = 2, putSeq = 2, elem_value = 0\<rparr>,
                    \<lparr>getSeq = 1, putSeq = 3, elem_value = 5 :: int\<rparr>]\<rparr>"
  let ?c = "\<lparr>capacity = 2, mask_q = 1, head = 1, tail = 1,
        elements = [\<lparr>getSeq = 2, putSeq = 2, elem_value = 0\<rparr>,
                    \<lparr>getSeq = 1, putSeq = 3, elem_value = 5 :: int\<rparr>]\<rparr>"
  let ?d = "\<lparr>capacity = 2, mask_q = 1, head = 1, tail = 1,
        elements = [\<lparr>getSeq = 2, putSeq = 2, elem_value = 0\<rparr>,
                    \<lparr>getSeq = 3, putSeq = 3, elem_value = 0 :: int\<rparr>]\<rparr>"
  have r: "run [OpPut 5] (New 2 :: int Queue) = Returns (?b, [PutReply 1 None])"
    by code_simp
  have p: "put ?a 1 5 = Returns ?b"
    by code_simp
  have g: "get ?c 1 = Returns (?d, 5)"
    by code_simp
  from slot_handshake [of "[OpPut 5]" 2 ?b "[PutReply 1 None]" ?a 1 5 ?b ?c 1 ?d 5] r p g
  have "slots_ok ?b"
    and "putSeq (elements ?c ! unat ((1 :: u32) AND mask_q ?c))
         - getSeq (elements ?c ! unat ((1 :: u32) AND mask_q ?c)) = capacity ?c"
    by blast+
  with r p g show ?thesis
    by simp
qed

text \<open>
  C10 as stated ends with: both sequence numbers of a slot never decrease. They wrap
  with the counters: on the queue of capacity 2 reached after \<open>2^32 - 2\<close> rounds of
  \<open>Put(0); Get()\<close>, a \<open>Put\<close> takes \<open>putSeq\<close> of slot 1 from \<open>2^32 - 1\<close> to 1.
\<close>

theorem seq_wraps_counterexample:
  "run (concat (replicate 4294967294 [OpPut 0, OpGet])) (New 2 :: int Queue) =
     Returns (\<lparr>capacity = 2, mask_q = 1, head = 4294967294, tail = 4294967294,
        elements = [\<lparr>getSeq = 0, putSeq = 0, elem_value = 0\<rparr>,
                    \<lparr>getSeq = 4294967295, putSeq = 4294967295, elem_value = 0\<rparr>]\<rparr>,
        concat (replicate 4294967294 [PutReply 1 None, GetReply 0 0 None])) \<and>
   Put \<lparr>capacity = 2, mask_q = 1, head = 4294967294, tail = 4294967294,
        elements = [\<lparr>getSeq = 0, putSeq = 0, elem_value = 0\<rparr>,
                    \<lparr>getSeq = 4294967295, putSeq = 4294967295, elem_value = 0\<rparr>]\<rparr> (7 :: int) =
     Returns (\<lparr>capacity = 2, mask_q = 1, head = 4294967294, tail = 4294967295,
        elements = [\<lparr>getSeq = 0, putSeq = 0, elem_value = 0\<rparr>,
                    \<lparr>getSeq = 4294967295, putSeq = 1, elem_value = 7\<rparr>]\<rparr>, 1, None) \<and>
   \<not> unat (putSeq (\<lparr>getSeq = 4294967295, putSeq = 4294967295 :: u32, elem_value = 0 :: int\<rparr>))
       \<le> unat (putSeq (\<lparr>getSeq = 4294967295, putSeq = 1 :: u32, elem_value = 7 :: int\<rparr>))"
proof (intro conjI)
  show "Put \<lparr>capacity = 2, mask_q = 1, head = 4294967294, tail = 4294967294,
        elements = [\<lparr>getSeq = 0, putSeq = 0, elem_value = 0\<rparr>,
                    \<lparr>getSeq = 4294967295, putSeq = 4294967295, elem_value = 0\<rparr>]\<rparr> (7 :: int) =
     Returns (\<lparr>capacity = 2, mask_q = 1, head = 4294967294, tail = 4294967295,
        elements = [\<lparr>getSeq = 0, putSeq = 0, elem_value = 0\<rparr>,
                    \<lparr>getSeq = 4294967295, putSeq = 1, elem_value = 7\<rparr>]\<rparr>, 1, None)"
    by code_simp
qed (simp_all add: near_wrap)

section \<open>The queue as a ring buffer\<close>

text \<open>
  What the operations do to the contents of a queue in the state \<open>queue_inv\<close>. \<open>Put\<close>,
  \<open>Get\<close>, \<open>MustPut\<close> and \<open>MustGet\<close> append and remove one value whatever the values of
  the counters are. The batch operations append and remove the granted values when
  the reserved positions do not reach past \<open>2^32 - 1\<close>. Up to the first \<open>2^32 - 2\<close>
  elements put into a fresh queue, the values therefore come out in the order in
  which they went in.
\<close>

lemma ring_index:
  assumes "ring_ok q"
  shows "unat (p AND mask_q q) = unat p mod unat (capacity q)"
proof -
  from assms obtain k where k: "k \<le> 31" "capacity q = 2 ^ k" "mask_q q = 2 ^ k - 1"
    by (auto simp: ring_ok_def)
  from k(1) have u: "unat ((2::u32) ^ k) = 2 ^ k"
    by (intro unat_pow2) simp
  have e: "p AND mask_q q = take_bit k p"
    by (simp add: k(3) take_bit_eq_mask mask_eq_exp_minus_1)
  have "unat (take_bit k p) = take_bit k (unat p)"
    by (rule unsigned_take_bit_eq)
  also have "\<dots> = unat p mod 2 ^ k"
    by (rule take_bit_eq_mod)
  finally show ?thesis
    unfolding e k(2) u .
qed

lemma ring_capacity_pos: "ring_ok q \<Longrightarrow> 0 < unat (capacity q)"
proof -
  assume "ring_ok q"
  then obtain k where k: "k \<le> 31" "capacity q = 2 ^ k"
    by (auto simp: ring_ok_def)
  from k(1) have "unat ((2::u32) ^ k) = 2 ^ k"
    by (intro unat_pow2) simp
  with k(2) show ?thesis by simp
qed

lemma ring_capacity_dvd: "ring_ok q \<Longrightarrow> unat (capacity q) dvd 2 ^ 32"
proof -
  assume "ring_ok q"
  then obtain k where k: "k \<le> 31" "capacity q = 2 ^ k"
    by (auto simp: ring_ok_def)
  from k(1) have "unat ((2::u32) ^ k) = 2 ^ k"
    by (intro unat_pow2) simp
  moreover from k(1) have "(2::nat) ^ k dvd 2 ^ 32"
    by (intro le_imp_power_dvd) simp
  ultimately show ?thesis using k(2) by simp
qed

lemma ring_index_less: "ring_ok q \<Longrightarrow> unat (p AND mask_q q) < length (elements q)"
  using ring_capacity_pos [of q] by (simp add: ring_index) (simp add: ring_ok_def)

lemma ring_index_offset:
  assumes "ring_ok q"
  shows "unat ((h + of_nat j) AND mask_q q) = (unat h + j) mod unat (capacity q)"
proof -
  have "unat (h + of_nat j) = (unat h + j) mod 2 ^ 32"
    by (simp add: unat_word_ariths unat_of_nat mod_add_right_eq)
  with ring_capacity_dvd [OF assms] show ?thesis
    by (simp add: ring_index [OF assms] mod_mod_cancel)
qed

lemma mod_add_inj:
  fixes a b n H :: nat
  assumes "a < n" "b < n" "(H + a) mod n = (H + b) mod n"
  shows "a = b"
proof -
  have aux: "a = b" if "a \<le> b" "a < n" "b < n" "(H + a) mod n = (H + b) mod n" for a b
  proof -
    from that(1,4) have "n dvd (H + b) - (H + a)"
      by (subst mod_eq_dvd_iff_nat [symmetric]) simp_all
    then have "n dvd b - a" by simp
    with that(1,3) show ?thesis
      by (cases "b - a = 0") (auto dest: dvd_imp_le)
  qed
  show ?thesis
  proof (cases "a \<le> b")
    case True
    from aux [OF True assms] show ?thesis .
  next
    case False
    then have "b \<le> a" by simp
    from aux [OF this assms(2,1) assms(3) [symmetric]] show ?thesis by simp
  qed
qed

lemma ring_index_inj:
  assumes "ring_ok q" "i < unat (capacity q)" "j < unat (capacity q)"
    and "unat ((h + of_nat i) AND mask_q q) = unat ((h + of_nat j) AND mask_q q)"
  shows "i = j"
  using assms(4) unfolding ring_index_offset [OF assms(1)]
  by (rule mod_add_inj [OF assms(2,3)])

lemma ring_index_lap:
  assumes "ring_ok q"
  shows "unat ((p + capacity q) AND mask_q q) = unat (p AND mask_q q)"
proof -
  have "p + capacity q = p + of_nat (unat (capacity q))" by simp
  then show ?thesis
    unfolding ring_index_offset [OF assms] \<open>p + capacity q = p + of_nat (unat (capacity q))\<close>
    by (simp add: ring_index [OF assms])
qed

lemma slot_at_update:
  assumes "ring_ok q" "j < unat (capacity q)" "L < unat (capacity q)"
  shows "slot_at (q\<lparr>elements := (elements q)[unat ((b + of_nat L) AND mask_q q) := e]\<rparr>)
           (b + of_nat j) = (if j = L then e else slot_at q (b + of_nat j))"
proof (cases "j = L")
  case True
  with ring_index_less [OF assms(1)] show ?thesis
    by (simp add: slot_at_def)
next
  case False
  with ring_index_inj [OF assms(1,2,3), of b]
  have "unat ((b + of_nat j) AND mask_q q) \<noteq> unat ((b + of_nat L) AND mask_q q)"
    by blast
  with False show ?thesis
    by (simp add: slot_at_def)
qed

lemma put_at:
  assumes r: "ring_ok q" and s: "slots_at q h L" and L: "L < unat (capacity q)"
  shows "\<exists>q'. put q (h + 1 + of_nat L) v = Returns q' \<and> ring_ok q' \<and> slots_at q' h (Suc L) \<and>
           stored q' h (Suc L) = stored q h L @ [v] \<and>
           head q' = head q \<and> tail q' = tail q \<and> capacity q' = capacity q"
proof -
  let ?p = "h + 1 + of_nat L"
  let ?i = "unat (?p AND mask_q q)"
  let ?e = "(elements q ! ?i)\<lparr>elem_value := v, putSeq := ?p + capacity q\<rparr>"
  let ?q = "q\<lparr>elements := (elements q)[?i := ?e]\<rparr>"
  from s L have seqs: "getSeq (slot_at q ?p) = ?p" "putSeq (slot_at q ?p) = ?p"
    by (simp_all add: slots_at_def)
  with ring_index_less [OF r, of ?p] have put: "put q ?p v = Returns ?q"
    by (simp add: put_eq Let_def slot_at_def)
  have upd: "slot_at ?q (h + 1 + of_nat j) = (if j = L then ?e else slot_at q (h + 1 + of_nat j))"
    if "j < unat (capacity q)" for j
    by (rule slot_at_update [OF r that L])
  have ring_ok': "ring_ok ?q"
    using r by (simp add: ring_ok_def)
  have slots': "slots_at ?q h (Suc L)"
    unfolding slots_at_def
  proof (intro allI impI)
    fix j assume "j < unat (capacity ?q)"
    then have j: "j < unat (capacity q)" by simp
    from s j have old: "getSeq (slot_at q (h + 1 + of_nat j)) = h + 1 + of_nat j"
        "putSeq (slot_at q (h + 1 + of_nat j)) =
          (if j < L then h + 1 + of_nat j + capacity q else h + 1 + of_nat j)"
      by (simp_all add: slots_at_def)
    show "getSeq (slot_at ?q (h + 1 + of_nat j)) = h + 1 + of_nat j \<and>
        putSeq (slot_at ?q (h + 1 + of_nat j)) =
          (if j < Suc L then h + 1 + of_nat j + capacity ?q else h + 1 + of_nat j)"
    proof (cases "j = L")
      case True
      with seqs show ?thesis
        unfolding upd [OF j] by (simp add: slot_at_def)
    next
      case False
      then have "j < Suc L \<longleftrightarrow> j < L" by auto
      with False old show ?thesis
        unfolding upd [OF j] by simp
    qed
  qed
  have stored': "stored ?q h (Suc L) = stored q h L @ [v]"
  proof -
    have "map (\<lambda>j. elem_value (slot_at ?q (h + 1 + of_nat j))) [0..<L] =
          map (\<lambda>j. elem_value (slot_at q (h + 1 + of_nat j))) [0..<L]"
    proof (rule map_cong [OF refl])
      fix j assume "j \<in> set [0..<L]"
      with L have "j < unat (capacity q)" "j \<noteq> L" by simp_all
      then show "elem_value (slot_at ?q (h + 1 + of_nat j)) =
          elem_value (slot_at q (h + 1 + of_nat j))"
        by (simp add: upd)
    qed
    moreover have "elem_value (slot_at ?q (h + 1 + of_nat L)) = v"
      by (simp add: upd [OF L])
    ultimately show ?thesis
      by (simp add: stored_def)
  qed
  from put ring_ok' slots' stored' show ?thesis
    by (intro exI [of _ ?q]) simp
qed

lemma stored_hd_tl:
  assumes "0 < L"
  shows "hd (stored q h L) = elem_value (slot_at q (h + 1))"
    and "tl (stored q h L) = map (\<lambda>j. elem_value (slot_at q (h + 1 + of_nat (Suc j)))) [0..<L - 1]"
proof -
  from assms obtain L' where L': "L = Suc L'" by (cases L) auto
  have "[0..<Suc L'] = 0 # map Suc [0..<L']"
    by (simp add: upt_conv_Cons map_Suc_upt)
  then have *: "stored q h L = elem_value (slot_at q (h + 1))
      # map (\<lambda>j. elem_value (slot_at q (h + 1 + of_nat (Suc j)))) [0..<L']"
    unfolding stored_def L' by (simp add: o_def)
  show "hd (stored q h L) = elem_value (slot_at q (h + 1))"
    unfolding * by simp
  show "tl (stored q h L) = map (\<lambda>j. elem_value (slot_at q (h + 1 + of_nat (Suc j)))) [0..<L - 1]"
    unfolding * by (simp add: L')
qed

lemma get_at:
  assumes r: "ring_ok q" and s: "slots_at q h L" and L: "0 < L" "L \<le> unat (capacity q)"
  shows "\<exists>q'. get q (h + 1) = Returns (q', hd (stored q h L)) \<and> ring_ok q' \<and>
           slots_at q' (h + 1) (L - 1) \<and> stored q' (h + 1) (L - 1) = tl (stored q h L) \<and>
           head q' = head q \<and> tail q' = tail q \<and> capacity q' = capacity q"
proof -
  let ?p = "h + 1"
  let ?i = "unat (?p AND mask_q q)"
  let ?e = "(elements q ! ?i)\<lparr>elem_value := 0, getSeq := ?p + capacity q\<rparr>"
  let ?q = "q\<lparr>elements := (elements q)[?i := ?e]\<rparr>"
  from L have c0: "0 < unat (capacity q)" by simp
  from s L c0 have seqs: "getSeq (slot_at q ?p) = ?p" "putSeq (slot_at q ?p) = ?p + capacity q"
    unfolding slots_at_def by (auto dest!: spec [of _ 0])
  with ring_index_less [OF r, of ?p]
  have get: "get q ?p = Returns (?q, elem_value (slot_at q ?p))"
    by (simp add: get_eq Let_def slot_at_def)
  have upd: "slot_at ?q (h + 1 + of_nat j) = (if j = 0 then ?e else slot_at q (h + 1 + of_nat j))"
    if "j < unat (capacity q)" for j
    using slot_at_update [OF r that c0, of ?p ?e] by simp
  have lap: "slot_at ?q (h + 1 + capacity q) = ?e"
    using ring_index_lap [OF r, of ?p] ring_index_less [OF r, of ?p]
    by (simp add: slot_at_def)
  have ring_ok': "ring_ok ?q"
    using r by (simp add: ring_ok_def)
  have slots': "slots_at ?q (h + 1) (L - 1)"
    unfolding slots_at_def
  proof (intro allI impI)
    fix j assume "j < unat (capacity ?q)"
    then have j: "j < unat (capacity q)" by simp
    have pos: "h + 1 + 1 + of_nat j = h + 1 + of_nat (Suc j)" by simp
    show "getSeq (slot_at ?q (h + 1 + 1 + of_nat j)) = h + 1 + 1 + of_nat j \<and>
        putSeq (slot_at ?q (h + 1 + 1 + of_nat j)) =
          (if j < L - 1 then h + 1 + 1 + of_nat j + capacity ?q else h + 1 + 1 + of_nat j)"
    proof (cases "Suc j < unat (capacity q)")
      case True
      from s True have "getSeq (slot_at q (h + 1 + of_nat (Suc j))) = h + 1 + of_nat (Suc j)"
        "putSeq (slot_at q (h + 1 + of_nat (Suc j))) =
          (if Suc j < L then h + 1 + of_nat (Suc j) + capacity q else h + 1 + of_nat (Suc j))"
        unfolding slots_at_def by blast+
      moreover from L have "j < L - 1 \<longleftrightarrow> Suc j < L" by auto
      ultimately show ?thesis
        unfolding pos upd [OF True] by simp
    next
      case False
      with j have "Suc j = unat (capacity q)" by simp
      then have "(of_nat (Suc j) :: u32) = capacity q" by (simp only: of_nat_unat) simp
      then have pos': "h + 1 + of_nat (Suc j) = h + 1 + capacity q" by simp
      from \<open>Suc j = unat (capacity q)\<close> L have "\<not> j < L - 1" by simp
      with seqs show ?thesis
        unfolding pos pos' lap by (simp add: slot_at_def)
    qed
  qed
  have "stored ?q (h + 1) (L - 1) =
      map (\<lambda>j. elem_value (slot_at q (h + 1 + of_nat (Suc j)))) [0..<L - 1]"
    unfolding stored_def
  proof (rule map_cong [OF refl])
    fix j assume "j \<in> set [0..<L - 1]"
    with L have "Suc j < unat (capacity q)" by simp
    from upd [OF this]
    show "elem_value (slot_at ?q (h + 1 + 1 + of_nat j)) =
        elem_value (slot_at q (h + 1 + of_nat (Suc j)))"
      by (simp add: ac_simps)
  qed
  then have stored': "stored ?q (h + 1) (L - 1) = tl (stored q h L)"
    by (simp only: stored_hd_tl(2) [OF L(1)])
  from get ring_ok' slots' stored' show ?thesis
    unfolding stored_hd_tl(1) [OF L(1)] by (intro exI [of _ ?q]) simp
qed

lemma unat_add_of_nat:
  fixes i :: u32
  assumes "unat i + m < 2 ^ 32"
  shows "unat (i + of_nat m) = unat i + m"
proof -
  have "unat (i + of_nat m) = (unat i + m) mod 2 ^ 32"
    by (simp add: unat_word_ariths unat_of_nat mod_add_right_eq)
  with assms show ?thesis by simp
qed

lemma less_add_of_nat:
  fixes i :: u32
  assumes "unat i + m < 2 ^ 32" "0 < m"
  shows "i < i + of_nat m"
  using assms by (simp add: word_less_nat_alt unat_add_of_nat)

lemma unat_add_1:
  fixes i :: u32
  assumes "unat i + m < 2 ^ 32" "0 < m"
  shows "unat (i + 1) = unat i + 1"
  using assms unat_add_of_nat [of i 1] by simp

lemma length_stored [simp]: "length (stored q h L) = L"
  by (simp add: stored_def)

lemma PutEnough_loop_at:
  assumes "ring_ok q" "slots_at q h L" "L + n \<le> unat (capacity q)" "j + n \<le> length vs"
    and "unat (h + 1 + of_nat L) + n < 2 ^ 32"
  shows "\<exists>q'. PutEnough_loop q vs (h + 1 + of_nat L + of_nat n) (h + 1 + of_nat L) j = Returns q' \<and>
           ring_ok q' \<and> slots_at q' h (L + n) \<and>
           stored q' h (L + n) = stored q h L @ take n (drop j vs) \<and>
           head q' = head q \<and> tail q' = tail q \<and> capacity q' = capacity q"
  using assms
proof (induction n arbitrary: q L j)
  case 0
  then show ?case
    by (subst PutEnough_loop.simps) simp
next
  case (Suc n)
  let ?i = "h + 1 + of_nat L"
  from Suc.prems(5) have lt: "?i < ?i + of_nat (Suc n)"
    by (intro less_add_of_nat) simp_all
  from Suc.prems(4) have j: "\<not> length vs \<le> j" by simp
  from Suc.prems(3) have "L < unat (capacity q)" by simp
  from put_at [OF Suc.prems(1,2) this, of "vs ! j"] obtain q1 where
    q1: "put q ?i (vs ! j) = Returns q1" "ring_ok q1" "slots_at q1 h (Suc L)"
      "stored q1 h (Suc L) = stored q h L @ [vs ! j]"
      "head q1 = head q" "tail q1 = tail q" "capacity q1 = capacity q"
    by blast
  have i1: "?i + 1 = h + 1 + of_nat (Suc L)" by simp
  have up: "?i + of_nat (Suc n) = h + 1 + of_nat (Suc L) + of_nat n" by simp
  from Suc.prems(5) have "unat (?i + 1) = unat ?i + 1"
    by (intro unat_add_1 [of _ "Suc n"]) simp_all
  with Suc.prems(5) have nw: "unat (h + 1 + of_nat (Suc L)) + n < 2 ^ 32"
    unfolding i1 by simp
  from Suc.prems(3) q1(7) have b: "Suc L + n \<le> unat (capacity q1)" by simp
  from Suc.prems(4) have v: "Suc j + n \<le> length vs" by simp
  from Suc.IH [OF q1(2,3) b v nw] obtain q' where
    q': "PutEnough_loop q1 vs (h + 1 + of_nat (Suc L) + of_nat n) (h + 1 + of_nat (Suc L)) (Suc j)
           = Returns q'"
      "ring_ok q'" "slots_at q' h (Suc L + n)"
      "stored q' h (Suc L + n) = stored q1 h (Suc L) @ take n (drop (Suc j) vs)"
      "head q' = head q1" "tail q' = tail q1" "capacity q' = capacity q1"
    by blast
  from lt have lt': "?i < h + 1 + of_nat (Suc L) + of_nat n"
    unfolding up .
  have "PutEnough_loop q vs (h + 1 + of_nat (Suc L) + of_nat n) ?i j = Returns q'"
    by (subst PutEnough_loop.simps) (simp only: lt' j if_True if_False q1(1) bind_outcome.simps
          i1 q'(1) Suc_eq_plus1 [symmetric])
  then have "PutEnough_loop q vs (?i + of_nat (Suc n)) ?i j = Returns q'"
    unfolding up .
  moreover from j have "[vs ! j] @ take n (drop (Suc j) vs) = take (Suc n) (drop j vs)"
    by (simp add: Cons_nth_drop_Suc [symmetric])
  ultimately show ?case
    using q' q1 by (intro exI [of _ q']) simp
qed

lemma GetEnough_loop_at:
  assumes "ring_ok q" "slots_at q h L" "n \<le> L" "L \<le> unat (capacity q)"
    and "unat (h + 1) + n < 2 ^ 32"
  shows "\<exists>q'. GetEnough_loop q res (h + 1 + of_nat n) (h + 1) =
             Returns (q', res @ take n (stored q h L)) \<and>
           ring_ok q' \<and> slots_at q' (h + of_nat n) (L - n) \<and>
           stored q' (h + of_nat n) (L - n) = drop n (stored q h L) \<and>
           head q' = head q \<and> tail q' = tail q \<and> capacity q' = capacity q"
  using assms
proof (induction n arbitrary: q h L res)
  case 0
  then show ?case
    by (subst GetEnough_loop.simps) simp
next
  case (Suc n)
  from Suc.prems(5) have lt: "h + 1 < h + 1 + of_nat (Suc n)"
    by (intro less_add_of_nat) simp_all
  from Suc.prems(3) have L0: "0 < L" by simp
  from get_at [OF Suc.prems(1,2) L0 Suc.prems(4)] obtain q1 where
    q1: "get q (h + 1) = Returns (q1, hd (stored q h L))" "ring_ok q1"
      "slots_at q1 (h + 1) (L - 1)" "stored q1 (h + 1) (L - 1) = tl (stored q h L)"
      "head q1 = head q" "tail q1 = tail q" "capacity q1 = capacity q"
    by blast
  have up: "h + 1 + of_nat (Suc n) = h + 1 + 1 + of_nat n" by simp
  from Suc.prems(5) have "unat (h + 1 + 1) = unat (h + 1) + 1"
    by (intro unat_add_1 [of _ "Suc n"]) simp_all
  with Suc.prems(5) have nw: "unat (h + 1 + 1) + n < 2 ^ 32" by simp
  from Suc.prems(3) have n: "n \<le> L - 1" by simp
  from Suc.prems(4) q1(7) have c: "L - 1 \<le> unat (capacity q1)" by simp
  from Suc.IH [OF q1(2,3) n c nw, of "res @ [hd (stored q h L)]"] obtain q' where
    q': "GetEnough_loop q1 (res @ [hd (stored q h L)]) (h + 1 + 1 + of_nat n) (h + 1 + 1) =
           Returns (q', (res @ [hd (stored q h L)]) @ take n (stored q1 (h + 1) (L - 1)))"
      "ring_ok q'" "slots_at q' (h + 1 + of_nat n) (L - 1 - n)"
      "stored q' (h + 1 + of_nat n) (L - 1 - n) = drop n (stored q1 (h + 1) (L - 1))"
      "head q' = head q1" "tail q' = tail q1" "capacity q' = capacity q1"
    by blast
  from lt have lt': "h + 1 < h + 1 + 1 + of_nat n"
    unfolding up .
  have "GetEnough_loop q res (h + 1 + 1 + of_nat n) (h + 1) =
      Returns (q', (res @ [hd (stored q h L)]) @ take n (stored q1 (h + 1) (L - 1)))"
    by (subst GetEnough_loop.simps)
       (simp only: lt' if_True q1(1) bind_outcome.simps prod.case q'(1))
  then have run: "GetEnough_loop q res (h + 1 + of_nat (Suc n)) (h + 1) =
      Returns (q', (res @ [hd (stored q h L)]) @ take n (stored q1 (h + 1) (L - 1)))"
    unfolding up .
  from L0 have ne: "stored q h L \<noteq> []"
    by (metis length_stored less_numeral_extra(3) list.size(3))
  then have t: "(res @ [hd (stored q h L)]) @ take n (tl (stored q h L))
      = res @ take (Suc n) (stored q h L)"
    by (cases "stored q h L") simp_all
  have d: "drop n (tl (stored q h L)) = drop (Suc n) (stored q h L)"
    by (simp add: drop_Suc)
  have h': "h + 1 + of_nat n = h + of_nat (Suc n)" by simp
  have l': "L - 1 - n = L - Suc n" by simp
  from run q' q1 show ?case
    unfolding q1(4) t d h' l' by (intro exI [of _ q']) simp
qed

lemma counters_irrelevant [simp]:
  "ring_ok (q\<lparr>tail := t\<rparr>) = ring_ok q" "ring_ok (q\<lparr>head := h\<rparr>) = ring_ok q"
  "slots_at (q\<lparr>tail := t\<rparr>) = slots_at q" "slots_at (q\<lparr>head := h\<rparr>) = slots_at q"
  "stored (q\<lparr>tail := t\<rparr>) = stored q" "stored (q\<lparr>head := h\<rparr>) = stored q"
  by (simp_all add: ring_ok_def slots_at_def stored_def slot_at_def fun_eq_iff)

lemma room_nat:
  fixes used cap :: u32
  assumes "used \<le> cap" "cap - used \<noteq> 0"
  shows "unat used < unat cap" "unat (used + 1) = Suc (unat used)" "used + 1 \<le> cap"
  using assms by unat_arith+

lemma Put_inv:
  assumes i: "queue_inv q" and room: "capacity q - (tail q - head q) \<noteq> 0"
  shows "\<exists>q'. Put q v = Returns (q', capacity q - (tail q - head q) - 1, None) \<and> queue_inv q' \<and>
           contents q' = contents q @ [v] \<and> head q' = head q \<and> tail q' = tail q + 1"
proof -
  let ?L = "unat (tail q - head q)"
  from i have r: "ring_ok q" and le: "tail q - head q \<le> capacity q"
    and s: "slots_at q (head q) ?L"
    by (simp_all add: queue_inv_def)
  note rm = room_nat [OF le room]
  have pos: "head q + 1 + of_nat ?L = tail q + 1" by simp
  have "ring_ok (q\<lparr>tail := tail q + 1\<rparr>)" "slots_at (q\<lparr>tail := tail q + 1\<rparr>) (head q) ?L"
    "?L < unat (capacity (q\<lparr>tail := tail q + 1\<rparr>))"
    using r s rm(1) by simp_all
  from put_at [OF this, of v] obtain q' where
    q': "put (q\<lparr>tail := tail q + 1\<rparr>) (tail q + 1) v = Returns q'" "ring_ok q'"
      "slots_at q' (head q) (Suc ?L)" "stored q' (head q) (Suc ?L) = stored q (head q) ?L @ [v]"
      "head q' = head q" "tail q' = tail q + 1" "capacity q' = capacity q"
    unfolding pos by auto
  have len: "tail q' - head q' = (tail q - head q) + 1"
    by (simp add: q'(5,6))
  from room have "\<not> capacity q - (tail q - head q) < 1"
    by (simp add: word_less_1)
  with room q'(1) have "Put q v = Returns (q', capacity q - (tail q - head q) - 1, None)"
    by (simp add: Put_def acquirePut_eq Let_def)
  moreover have "queue_inv q'"
    unfolding queue_inv_def len rm(2) using q'(2,3) rm(3) by (simp add: q'(5,7))
  moreover have "contents q' = contents q @ [v]"
    unfolding contents_def len rm(2) by (simp add: q'(4,5))
  ultimately show ?thesis
    using q'(5,6) by blast
qed

lemma some_nat:
  fixes used cap :: u32
  assumes "used \<le> cap" "used \<noteq> 0"
  shows "0 < unat used" "unat used \<le> unat cap" "unat (used - 1) = unat used - 1" "used - 1 \<le> cap"
  using assms by unat_arith+

lemma Get_inv:
  assumes i: "queue_inv q" and some: "tail q - head q \<noteq> 0"
  shows "\<exists>q'. Get q = Returns (q', hd (contents q), tail q - head q - 1, None) \<and> queue_inv q' \<and>
           contents q' = tl (contents q) \<and> head q' = head q + 1 \<and> tail q' = tail q"
proof -
  let ?L = "unat (tail q - head q)"
  from i have r: "ring_ok q" and le: "tail q - head q \<le> capacity q"
    and s: "slots_at q (head q) ?L"
    by (simp_all add: queue_inv_def)
  note sm = some_nat [OF le some]
  have "ring_ok (q\<lparr>head := head q + 1\<rparr>)" "slots_at (q\<lparr>head := head q + 1\<rparr>) (head q) ?L"
    "0 < ?L" "?L \<le> unat (capacity (q\<lparr>head := head q + 1\<rparr>))"
    using r s sm(1,2) by simp_all
  from get_at [OF this] obtain q' where
    q': "get (q\<lparr>head := head q + 1\<rparr>) (head q + 1) = Returns (q', hd (stored q (head q) ?L))"
      "ring_ok q'" "slots_at q' (head q + 1) (?L - 1)"
      "stored q' (head q + 1) (?L - 1) = tl (stored q (head q) ?L)"
      "head q' = head q + 1" "tail q' = tail q" "capacity q' = capacity q"
    by auto
  have len: "tail q' - head q' = (tail q - head q) - 1"
    by (simp add: q'(5,6))
  from some have "\<not> tail q - head q < 1"
    by (simp add: word_less_1)
  with some q'(1) have "Get q = Returns (q', hd (contents q), tail q - head q - 1, None)"
    by (simp add: Get_def acquireGet_eq Let_def contents_def)
  moreover have "queue_inv q'"
    unfolding queue_inv_def len sm(3) using q'(2,3) sm(4) by (simp add: q'(5,7))
  moreover have "contents q' = tl (contents q)"
    unfolding contents_def len sm(3) using q'(4) by (simp add: q'(5))
  ultimately show ?thesis
    using q'(5,6) by blast
qed

lemma MustPut_Put:
  assumes "capacity q - (tail q - head q) \<noteq> 0" "Put q v = Returns (q', left, None)"
  shows "MustPut q v = Returns (q', left)"
proof -
  from assms(1) have "\<not> capacity q - (tail q - head q) < 1"
    by (simp add: word_less_1)
  with assms show ?thesis
    by (auto simp: MustPut_def MustPut_loop_eq Put_def acquirePut_eq Let_def bind_outcome_Returns)
qed

lemma MustGet_Get:
  assumes "tail q - head q \<noteq> 0" "Get q = Returns (q', v, used, None)"
  shows "MustGet q = Returns (q', v, used)"
proof -
  from assms(1) have "\<not> tail q - head q < 1"
    by (simp add: word_less_1)
  with assms show ?thesis
    by (auto simp: MustGet_def MustGet_loop_eq Get_def acquireGet_eq Let_def bind_outcome_Returns)
qed

lemma grant_nat:
  fixes used cap m :: u32
  assumes "used \<le> cap" "m \<le> cap - used"
  shows "unat used + unat m \<le> unat cap" "unat (used + m) = unat used + unat m" "used + m \<le> cap"
  using assms by unat_arith+

lemma PutEnough_inv:
  assumes i: "queue_inv q" and sz: "(of_nat (length vs) :: u32) \<noteq> 0"
    and room: "capacity q - (tail q - head q) \<noteq> 0"
    and m: "m = (if (of_nat (length vs) :: u32) > capacity q - (tail q - head q)
                 then capacity q - (tail q - head q) else of_nat (length vs))"
    and nowrap: "unat (tail q) + 1 + unat m < 2 ^ 32"
  shows "\<exists>q'. PutEnough q vs = Returns (q', m, capacity q - (tail q - head q) - m) \<and> queue_inv q' \<and>
           contents q' = contents q @ take (unat m) vs \<and> head q' = head q \<and> tail q' = tail q + m"
proof -
  let ?L = "unat (tail q - head q)"
  let ?q = "q\<lparr>tail := tail q + m\<rparr>"
  from i have r: "ring_ok q" and le: "tail q - head q \<le> capacity q"
    and s: "slots_at q (head q) ?L"
    by (simp_all add: queue_inv_def)
  have mle: "m \<le> capacity q - (tail q - head q)"
    by (simp add: m not_less)
  note g = grant_nat [OF le mle]
  have "unat (of_nat (length vs) :: u32) \<le> length vs"
    by (simp add: unat_of_nat)
  moreover have "m \<le> of_nat (length vs)"
    by (simp add: m less_imp_le)
  ultimately have mv: "unat m \<le> length vs"
    by (simp add: word_le_nat_alt)
  from nowrap have t1: "unat (tail q + 1) = unat (tail q) + 1"
    using unat_add_of_nat [of "tail q" 1] by simp
  have pos: "head q + 1 + of_nat ?L = tail q + 1" by simp
  have "ring_ok ?q" "slots_at ?q (head q) ?L" "?L + unat m \<le> unat (capacity ?q)"
    "0 + unat m \<le> length vs" "unat (head q + 1 + of_nat ?L) + unat m < 2 ^ 32"
    using r s g(1) mv nowrap t1 unfolding pos by simp_all
  from PutEnough_loop_at [OF this] obtain q' where
    q': "PutEnough_loop ?q vs (tail q + 1 + m) (tail q + 1) 0 = Returns q'" "ring_ok q'"
      "slots_at q' (head q) (?L + unat m)"
      "stored q' (head q) (?L + unat m) = stored q (head q) ?L @ take (unat m) vs"
      "head q' = head q" "tail q' = tail q + m" "capacity q' = capacity q"
    unfolding pos by auto
  have len: "tail q' - head q' = (tail q - head q) + m"
    by (simp add: q'(5,6))
  from sz room q'(1) have "PutEnough q vs = Returns (q', m, capacity q - (tail q - head q) - m)"
    unfolding PutEnough_eq Let_def m [symmetric] by simp
  moreover have "queue_inv q'"
    unfolding queue_inv_def len g(2) using q'(2,3) g(3) by (simp add: q'(5,7))
  moreover have "contents q' = contents q @ take (unat m) vs"
    unfolding contents_def len g(2) using q'(4) by (simp add: q'(5))
  ultimately show ?thesis
    using q'(5,6) by blast
qed

lemma take_nat:
  fixes used cap m :: u32
  assumes "used \<le> cap" "m \<le> used"
  shows "unat m \<le> unat used" "unat used \<le> unat cap" "unat (used - m) = unat used - unat m"
    "used - m \<le> cap"
  using assms by unat_arith+

lemma GetEnough_inv:
  assumes i: "queue_inv q" and sz: "sz \<noteq> 0" and some: "tail q - head q \<noteq> 0"
    and m: "m = (if sz > tail q - head q then tail q - head q else sz)"
    and nowrap: "unat (head q) + 1 + unat m < 2 ^ 32"
  shows "\<exists>q'. GetEnough q sz = Returns (q', take (unat m) (contents q), m, tail q - head q - m) \<and>
           queue_inv q' \<and> contents q' = drop (unat m) (contents q) \<and>
           head q' = head q + m \<and> tail q' = tail q"
proof -
  let ?L = "unat (tail q - head q)"
  let ?q = "q\<lparr>head := head q + m\<rparr>"
  from i have r: "ring_ok q" and le: "tail q - head q \<le> capacity q"
    and s: "slots_at q (head q) ?L"
    by (simp_all add: queue_inv_def)
  have mle: "m \<le> tail q - head q"
    by (simp add: m not_less)
  note g = take_nat [OF le mle]
  from nowrap have h1: "unat (head q + 1) = unat (head q) + 1"
    using unat_add_of_nat [of "head q" 1] by simp
  have "ring_ok ?q" "slots_at ?q (head q) ?L" "unat m \<le> ?L" "?L \<le> unat (capacity ?q)"
    "unat (head q + 1) + unat m < 2 ^ 32"
    using r s g(1,2) nowrap h1 by simp_all
  from GetEnough_loop_at [OF this, of "[]"] obtain q' where
    q': "GetEnough_loop ?q [] (head q + 1 + m) (head q + 1) =
           Returns (q', take (unat m) (stored q (head q) ?L))" "ring_ok q'"
      "slots_at q' (head q + m) (?L - unat m)"
      "stored q' (head q + m) (?L - unat m) = drop (unat m) (stored q (head q) ?L)"
      "head q' = head q + m" "tail q' = tail q" "capacity q' = capacity q"
    by auto
  have len: "tail q' - head q' = (tail q - head q) - m"
    by (simp add: q'(5,6))
  from sz some q'(1)
  have "GetEnough q sz = Returns (q', take (unat m) (contents q), m, tail q - head q - m)"
    unfolding GetEnough_eq Let_def m [symmetric] contents_def by simp
  moreover have "queue_inv q'"
    unfolding queue_inv_def len g(3) using q'(2,3) g(4) by (simp add: q'(5,7))
  moreover have "contents q' = drop (unat m) (contents q)"
    unfolding contents_def len g(3) using q'(4) by (simp add: q'(5))
  ultimately show ?thesis
    using q'(5,6) by blast
qed

lemma New_capacity_top:
  assumes "2 ^ 31 \<le> unat (c - 1)"
  shows "New_capacity c = 2"
proof -
  define x where "x = c - 1"
  define s where "s = (let c2 = x OR drop_bit 1 x;
          c3 = c2 OR drop_bit 2 c2;
          c4 = c3 OR drop_bit 4 c3;
          c5 = c4 OR drop_bit 8 c4
      in c5 OR drop_bit 16 c5)"
  have bits: "bit s n \<longleftrightarrow> (\<exists>i\<le>31. bit x (n + i))" for n
    unfolding s_def Let_def by (rule spread_bits)
  have "unat (c - 1) < 2 ^ (31 + 1)"
    using unsigned_less [of "c - 1"] by simp
  from top_bit_nat [OF assms this, of 31] have top: "bit x 31"
    by (simp add: bit_unsigned_iff x_def)
  have "bit s n" if "n < 32" for n
  proof -
    from that have "31 - n \<le> 31" "n + (31 - n) = 31" by simp_all
    with top show ?thesis unfolding bits by metis
  qed
  then have "s = - 1"
    by (intro bit_word_eqI) simp
  moreover have "New_capacity c = (if s + 1 < 2 then 2 else s + 1)"
    by (simp add: New_capacity_def s_def x_def Let_def)
  ultimately show ?thesis
    by simp
qed

lemma New_capacity_is_pow2: "\<exists>k. 1 \<le> k \<and> k \<le> 31 \<and> New_capacity c = 2 ^ k"
proof -
  consider "unat (c - 1) = 0" | "1 \<le> unat (c - 1)" "unat (c - 1) < 2 ^ 31" | "2 ^ 31 \<le> unat (c - 1)"
    by linarith
  then show ?thesis
  proof cases
    case 1
    then have "c - 1 = 0" by (simp add: unat_eq_0)
    then have "New_capacity c = 2"
      by (simp add: New_capacity_def)
    then show ?thesis by (intro exI [of _ 1]) simp
  next
    case 2
    from ex_power_ivl1 [OF _ 2(1), of 2] obtain k
      where k: "2 ^ k \<le> unat (c - 1)" "unat (c - 1) < 2 ^ (k + 1)"
      by auto
    from k(1) 2(2) have "(2::nat) ^ k < 2 ^ 31" by simp
    then have k31: "k < 31"
      by (rule power_less_imp_less_exp [rotated]) simp
    from New_capacity_pow2 [OF k k31] k31 show ?thesis
      by (intro exI [of _ "k + 1"]) simp
  next
    case 3
    from New_capacity_top [OF 3] show ?thesis
      by (intro exI [of _ 1]) simp
  qed
qed

lemma ring_New: "ring_ok (New c)"
  using New_capacity_is_pow2 [of c] by (simp add: ring_ok_def New_def Let_def)

lemma queue_inv_New: "queue_inv (New c)"
proof -
  let ?n = "unat (New_capacity c)"
  have cap: "capacity (New c :: 'a Queue) = New_capacity c"
    by (simp add: New_def Let_def)
  have "0 < unat (capacity (New c :: 'a Queue))"
    by (rule ring_capacity_pos [OF ring_New])
  then have pos: "0 < ?n"
    by (simp add: cap)
  have "slots_at (New c :: 'a Queue) 0 0"
    unfolding slots_at_def
  proof (intro allI impI)
    fix j assume "j < unat (capacity (New c :: 'a Queue))"
    then have j: "j < ?n" by (simp add: cap)
    have p: "(0::u32) + 1 + of_nat j = 0 + of_nat (Suc j)" by simp
    have "unat (((0::u32) + of_nat (Suc j)) AND mask_q (New c :: 'a Queue)) =
        (unat (0::u32) + Suc j) mod unat (capacity (New c :: 'a Queue))"
      by (rule ring_index_offset [OF ring_New])
    then have idx: "unat (((0::u32) + of_nat (Suc j)) AND mask_q (New c :: 'a Queue)) = Suc j mod ?n"
      by (simp add: cap)
    have "getSeq (slot_at (New c :: 'a Queue) (0 + of_nat (Suc j))) = of_nat (Suc j) \<and>
          putSeq (slot_at (New c :: 'a Queue) (0 + of_nat (Suc j))) = of_nat (Suc j)"
    proof (cases "Suc j < ?n")
      case True
      then have "Suc j mod ?n = Suc j" by simp
      with True show ?thesis
        unfolding slot_at_def idx New_elements by simp
    next
      case False
      with j have e: "Suc j = ?n" by simp
      then have "(of_nat (Suc j) :: u32) = New_capacity c"
        by (simp only: of_nat_unat) simp
      with e show ?thesis
        unfolding slot_at_def idx New_elements by simp
    qed
    then show "getSeq (slot_at (New c :: 'a Queue) (0 + 1 + of_nat j)) = 0 + 1 + of_nat j \<and>
        putSeq (slot_at (New c :: 'a Queue) (0 + 1 + of_nat j)) =
          (if j < 0 then 0 + 1 + of_nat j + capacity (New c :: 'a Queue) else 0 + 1 + of_nat j)"
      unfolding p by simp
  qed
  then show ?thesis
    by (simp add: queue_inv_def ring_New) (simp add: New_def Let_def)
qed

lemma contents_New: "contents (New c) = []"
  by (simp add: contents_def stored_def New_def Let_def)

lemma length_contents [simp]: "length (contents q) = unat (tail q - head q)"
  by (simp add: contents_def)

lemma tail_advance:
  fixes t m :: u32
  assumes "unat t + unat m < 2 ^ 32 - 1"
  shows "unat (t + m) = unat t + unat m"
  using assms by (simp add: unat_word_ariths)

lemma head_advance:
  fixes h t m :: u32
  assumes "unat h \<le> unat t" "m \<le> t - h"
  shows "unat (h + m) = unat h + unat m" "unat (h + m) \<le> unat t"
  using assms by unat_arith+

lemma Put_fifo:
  assumes i: "queue_inv q" and ht: "unat (head q) \<le> unat (tail q)"
    and st: "Put q v = Returns (q', left, err)"
    and nw: "unat (tail q) + put_count (PutReply left err) < 2 ^ 32 - 1"
  shows "queue_inv q' \<and> unat (head q') \<le> unat (tail q') \<and>
         unat (tail q') = unat (tail q) + put_count (PutReply left err) \<and>
         contents q @ supplied (OpPut v) (PutReply left err)
           = received (PutReply left err) @ contents q'"
proof (cases "capacity q - (tail q - head q) = 0")
  case True
  with st have "q' = q" "err = Some ErrQueueIsFull"
    by (simp_all add: Put_def acquirePut_eq)
  with i ht show ?thesis by simp
next
  case False
  from Put_inv [OF i False, of v] st obtain
    q': "queue_inv q'" "contents q' = contents q @ [v]" "head q' = head q" "tail q' = tail q + 1"
      "err = None"
    by auto
  from nw q'(5) have "unat (tail q + 1) = unat (tail q) + 1"
    using tail_advance [of "tail q" 1] by simp
  with q' ht show ?thesis by simp
qed

lemma Get_fifo:
  assumes i: "queue_inv q" and ht: "unat (head q) \<le> unat (tail q)"
    and st: "Get q = Returns (q', val, used, err)"
  shows "queue_inv q' \<and> unat (head q') \<le> unat (tail q') \<and> tail q' = tail q \<and>
         contents q = received (GetReply val used err) @ contents q'"
proof (cases "tail q - head q = 0")
  case True
  with st have "q' = q" "err = Some ErrQueueIsEmpty"
    by (simp_all add: Get_def acquireGet_eq)
  with i ht show ?thesis by simp
next
  case False
  from Get_inv [OF i False] st obtain
    q': "queue_inv q'" "contents q' = tl (contents q)" "head q' = head q + 1" "tail q' = tail q"
      "err = None" "val = hd (contents q)"
    by auto
  from False have "1 \<le> tail q - head q"
    by (simp add: one_le_nonzero)
  from head_advance [OF ht this] have "unat (head q + 1) \<le> unat (tail q)" by simp
  moreover from False have "contents q \<noteq> []"
    by (metis length_contents list.size(3) unat_eq_0)
  ultimately show ?thesis
    using q' by simp
qed

lemma MustPut_fifo:
  assumes i: "queue_inv q" and ht: "unat (head q) \<le> unat (tail q)"
    and st: "MustPut q v = Returns (q', left)"
    and nw: "unat (tail q) + 1 < 2 ^ 32 - 1"
  shows "queue_inv q' \<and> unat (head q') \<le> unat (tail q') \<and> unat (tail q') = unat (tail q) + 1 \<and>
         contents q @ [v] = contents q'"
proof -
  from st have room: "capacity q - (tail q - head q) \<noteq> 0"
    by (auto simp: MustPut_def MustPut_loop_eq split: if_splits)
  from Put_inv [OF i room, of v] obtain q1 where
    q1: "Put q v = Returns (q1, capacity q - (tail q - head q) - 1, None)"
    by blast
  from MustPut_Put [OF room q1] st have "q1 = q'" by simp
  with Put_fifo [OF i ht q1] nw show ?thesis by simp
qed

lemma MustGet_fifo:
  assumes i: "queue_inv q" and ht: "unat (head q) \<le> unat (tail q)"
    and st: "MustGet q = Returns (q', val, used)"
  shows "queue_inv q' \<and> unat (head q') \<le> unat (tail q') \<and> tail q' = tail q \<and>
         contents q = [val] @ contents q'"
proof -
  from st have some: "tail q - head q \<noteq> 0"
    by (auto simp: MustGet_def MustGet_loop_eq split: if_splits)
  from Get_inv [OF i some] obtain q1 where
    q1: "Get q = Returns (q1, hd (contents q), tail q - head q - 1, None)"
    by blast
  from MustGet_Get [OF some q1] st have "q1 = q'" "val = hd (contents q)" by simp_all
  with Get_fifo [OF i ht q1] show ?thesis by auto
qed

lemma PutEnough_fifo:
  assumes i: "queue_inv q" and ht: "unat (head q) \<le> unat (tail q)"
    and st: "PutEnough q vs = Returns (q', n, left)"
    and nw: "unat (tail q) + unat n < 2 ^ 32 - 1"
  shows "queue_inv q' \<and> unat (head q') \<le> unat (tail q') \<and> unat (tail q') = unat (tail q) + unat n \<and>
         contents q @ take (unat n) vs = contents q'"
proof -
  define m where "m = (if (of_nat (length vs) :: u32) > capacity q - (tail q - head q)
     then capacity q - (tail q - head q) else of_nat (length vs))"
  consider (zero) "(of_nat (length vs) :: u32) = 0"
    | (full) "(of_nat (length vs) :: u32) \<noteq> 0" "capacity q - (tail q - head q) = 0"
    | (room) "(of_nat (length vs) :: u32) \<noteq> 0" "capacity q - (tail q - head q) \<noteq> 0"
    by blast
  then show ?thesis
  proof cases
    case zero
    with st have "q' = q \<and> n = 0"
      by (simp add: PutEnough_eq)
    with i ht show ?thesis by simp
  next
    case full
    from st have "q' = q \<and> n = 0"
      unfolding PutEnough_eq if_not_P [OF full(1)] if_P [OF full(2)] by simp
    with i ht show ?thesis by simp
  next
    case room
    from st have n: "n = m"
      unfolding PutEnough_eq if_not_P [OF room(1)] if_not_P [OF room(2)] Let_def m_def [symmetric]
      by (auto simp: bind_outcome_Returns)
    from nw have "unat (tail q) + 1 + unat m < 2 ^ 32"
      unfolding n by simp
    from PutEnough_inv [OF i room m_def this] st obtain
      q': "queue_inv q'" "contents q' = contents q @ take (unat m) vs" "head q' = head q"
        "tail q' = tail q + m"
      by auto
    from tail_advance [of "tail q" m] nw have "unat (tail q + m) = unat (tail q) + unat m"
      unfolding n by simp
    with q' ht show ?thesis
      unfolding n by simp
  qed
qed

lemma GetEnough_fifo:
  assumes i: "queue_inv q" and ht: "unat (head q) \<le> unat (tail q)"
    and st: "GetEnough q sz = Returns (q', res, n, used)"
    and nw: "unat (tail q) < 2 ^ 32 - 1"
  shows "queue_inv q' \<and> unat (head q') \<le> unat (tail q') \<and> tail q' = tail q \<and>
         contents q = res @ contents q'"
proof -
  define m where "m = (if sz > tail q - head q then tail q - head q else sz)"
  consider (zero) "sz = 0"
    | (empty) "sz \<noteq> 0" "tail q - head q = 0"
    | (some) "sz \<noteq> 0" "tail q - head q \<noteq> 0"
    by blast
  then show ?thesis
  proof cases
    case zero
    with st have "q' = q \<and> res = []"
      by (simp add: GetEnough_eq)
    with i ht show ?thesis by simp
  next
    case empty
    from st have "q' = q \<and> res = []"
      unfolding GetEnough_eq if_not_P [OF empty(1)] if_P [OF empty(2)] by simp
    with i ht show ?thesis by simp
  next
    case some
    have mle: "m \<le> tail q - head q"
      by (simp add: m_def not_less)
    note ha = head_advance [OF ht mle]
    from ha nw have "unat (head q) + 1 + unat m < 2 ^ 32" by simp
    from GetEnough_inv [OF i some m_def this] st obtain
      q': "queue_inv q'" "contents q' = drop (unat m) (contents q)" "head q' = head q + m"
        "tail q' = tail q" "res = take (unat m) (contents q)"
      by auto
    with ha show ?thesis by simp
  qed
qed

lemma step_fifo:
  assumes i: "queue_inv q" and ht: "unat (head q) \<le> unat (tail q)"
    and st: "step c q = Returns (q', r)"
    and nw: "unat (tail q) + put_count r < 2 ^ 32 - 1"
  shows "queue_inv q' \<and> unat (head q') \<le> unat (tail q') \<and>
         unat (tail q') = unat (tail q) + put_count r \<and>
         contents q @ supplied c r = received r @ contents q'"
proof (cases c)
  case (OpPut v)
  with st obtain left err where *: "Put q v = Returns (q', left, err)" "r = PutReply left err"
    by (auto simp: bind_outcome_Returns)
  from Put_fifo [OF i ht *(1)] nw show ?thesis
    unfolding *(2) OpPut by simp
next
  case OpGet
  with st obtain val used err where *: "Get q = Returns (q', val, used, err)"
      "r = GetReply val used err"
    by (auto simp: bind_outcome_Returns)
  from Get_fifo [OF i ht *(1)] show ?thesis
    unfolding *(2) OpGet by (cases err) auto
next
  case (OpPutEnough vs)
  with st obtain n left where *: "PutEnough q vs = Returns (q', n, left)"
      "r = PutEnoughReply n left"
    by (auto simp: bind_outcome_Returns)
  from PutEnough_fifo [OF i ht *(1)] nw show ?thesis
    unfolding *(2) OpPutEnough by simp
next
  case (OpGetEnough sz)
  with st obtain res n used where *: "GetEnough q sz = Returns (q', res, n, used)"
      "r = GetEnoughReply res n used"
    by (auto simp: bind_outcome_Returns)
  from GetEnough_fifo [OF i ht *(1)] nw show ?thesis
    unfolding *(2) OpGetEnough by auto
next
  case (OpMustPut v)
  with st obtain left where *: "MustPut q v = Returns (q', left)" "r = MustPutReply left"
    by (auto simp: bind_outcome_Returns)
  from MustPut_fifo [OF i ht *(1)] nw show ?thesis
    unfolding *(2) OpMustPut by simp
next
  case OpMustGet
  with st obtain val used where *: "MustGet q = Returns (q', val, used)"
      "r = MustGetReply val used"
    by (auto simp: bind_outcome_Returns)
  from MustGet_fifo [OF i ht *(1)] show ?thesis
    unfolding *(2) OpMustGet by auto
qed

lemma run_fifo:
  assumes "queue_inv q" "unat (head q) \<le> unat (tail q)" "run cs q = Returns (q', rs)"
    and "unat (tail q) + sum_list (map put_count rs) < 2 ^ 32 - 1"
  shows "queue_inv q' \<and> contents q @ supplied_by cs rs = received_by rs @ contents q'"
  using assms
proof (induction cs arbitrary: q rs)
  case Nil
  then show ?case by (simp add: supplied_by_def received_by_def)
next
  case (Cons c cs)
  from Cons.prems(3) obtain q1 r rs1 where *: "step c q = Returns (q1, r)"
      "run cs q1 = Returns (q', rs1)" "rs = r # rs1"
    by (auto simp: bind_outcome_Returns)
  from Cons.prems(4) have "unat (tail q) + put_count r < 2 ^ 32 - 1"
    unfolding *(3) by simp
  from step_fifo [OF Cons.prems(1,2) *(1) this]
  have s: "queue_inv q1" "unat (head q1) \<le> unat (tail q1)"
      "unat (tail q1) = unat (tail q) + put_count r"
      "contents q @ supplied c r = received r @ contents q1"
    by blast+
  from Cons.prems(4) have "unat (tail q1) + sum_list (map put_count rs1) < 2 ^ 32 - 1"
    unfolding *(3) s(3) by simp
  from Cons.IH [OF s(1,2) *(2) this]
  have ih: "queue_inv q'" "contents q1 @ supplied_by cs rs1 = received_by rs1 @ contents q'"
    by blast+
  have "contents q @ supplied_by (c # cs) rs = (contents q @ supplied c r) @ supplied_by cs rs1"
    by (simp add: supplied_by_def *(3))
  also have "\<dots> = received r @ (contents q1 @ supplied_by cs rs1)"
    unfolding s(4) by simp
  also have "\<dots> = received_by rs @ contents q'"
    unfolding ih(2) by (simp add: received_by_def *(3))
  finally show ?case
    using ih(1) by blast
qed

lemma fifo_before_wrap:
  assumes "run cs (New c) = Returns (q, rs)"
    and "sum_list (map put_count rs) < 2 ^ 32 - 1"
  shows "supplied_by cs rs = received_by rs @ contents q"
proof -
  have "unat (head (New c :: 'a Queue)) \<le> unat (tail (New c :: 'a Queue))"
    "unat (tail (New c :: 'a Queue)) + sum_list (map put_count rs) < 2 ^ 32 - 1"
    using assms(2) by (simp_all add: New_def Let_def)
  from run_fifo [OF queue_inv_New this(1) assms(1) this(2)] show ?thesis
    by (simp add: contents_New)
qed

lemma batch_round_trip_before_wrap:
  assumes i: "queue_inv q" and e: "Len q = 0" and n: "length vs \<le> unat (Cap q)"
    and nw: "unat (tail q) + 1 + length vs < 2 ^ 32"
  shows "\<exists>q1 n left q2 n' used. PutEnough q vs = Returns (q1, n, left) \<and>
           GetEnough q1 (of_nat (length vs)) = Returns (q2, vs, n', used)"
proof (cases "vs = []")
  case True
  then show ?thesis
    by (simp add: PutEnough_eq GetEnough_eq)
next
  case False
  let ?sz = "of_nat (length vs) :: u32"
  from e have th: "tail q - head q = 0" "tail q = head q"
    by (simp_all add: Len_def)
  from nw have len: "unat ?sz = length vs"
    by (simp add: unat_of_nat)
  with False have sz: "?sz \<noteq> 0"
    by (metis length_0_conv unat_0)
  from i have "ring_ok q" by (simp add: queue_inv_def)
  from ring_capacity_pos [OF this] have room: "capacity q - (tail q - head q) \<noteq> 0"
    unfolding th(1) by (simp add: unat_gt_0)
  from n len have "\<not> ?sz > capacity q - (tail q - head q)"
    unfolding th(1) by (simp add: word_less_nat_alt Cap_def)
  then have m: "?sz = (if ?sz > capacity q - (tail q - head q)
      then capacity q - (tail q - head q) else ?sz)"
    by simp
  from nw len have "unat (tail q) + 1 + unat ?sz < 2 ^ 32" by simp
  from PutEnough_inv [OF i sz room m this] obtain q1 where
    q1: "PutEnough q vs = Returns (q1, ?sz, capacity q - (tail q - head q) - ?sz)" "queue_inv q1"
      "contents q1 = contents q @ take (unat ?sz) vs" "head q1 = head q" "tail q1 = tail q + ?sz"
    by blast
  from th have c0: "contents q = []"
    by (simp add: contents_def stored_def)
  have used: "tail q1 - head q1 = ?sz"
    by (simp add: q1(4,5) th(2))
  from sz have some: "tail q1 - head q1 \<noteq> 0"
    unfolding used .
  have m': "?sz = (if ?sz > tail q1 - head q1 then tail q1 - head q1 else ?sz)"
    unfolding used by simp
  from nw len have "unat (head q1) + 1 + unat ?sz < 2 ^ 32"
    by (simp add: q1(4) th(2) [symmetric])
  from GetEnough_inv [OF q1(2) sz some m' this] obtain q2 where
    "GetEnough q1 ?sz = Returns (q2, take (unat ?sz) (contents q1), ?sz, tail q1 - head q1 - ?sz)"
    by blast
  then have "GetEnough q1 ?sz = Returns (q2, vs, ?sz, tail q1 - head q1 - ?sz)"
    by (simp add: q1(3) c0 len)
  with q1(1) show ?thesis by blast
qed

lemma partial_batch_put_before_wrap:
  assumes i: "queue_inv q" and free: "Cap q - Len q \<noteq> 0"
    and more: "unat (Cap q - Len q) < length vs" "length vs < 2 ^ 32"
    and nw: "unat (tail q) + 1 + unat (Cap q - Len q) < 2 ^ 32"
  shows "\<exists>q'. PutEnough q vs = Returns (q', Cap q - Len q, 0) \<and> queue_inv q' \<and>
           contents q' = contents q @ take (unat (Cap q - Len q)) vs"
proof -
  let ?sz = "of_nat (length vs) :: u32"
  let ?free = "capacity q - (tail q - head q)"
  have f: "Cap q - Len q = ?free"
    by (simp add: Cap_def Len_def)
  from more(2) have len: "unat ?sz = length vs"
    by (simp add: unat_of_nat)
  with more(1) have gt: "?sz > ?free"
    unfolding f by (simp add: word_less_nat_alt)
  then have sz: "?sz \<noteq> 0"
    by (metis word_not_simps(1))
  from gt have m: "?free = (if ?sz > ?free then ?free else ?sz)"
    by simp
  from PutEnough_inv [OF i sz free [unfolded f] m nw [unfolded f]] show ?thesis
    unfolding f by auto
qed

end
